theory Spec2Isabelle
  imports Main "HOL-Library.Word" "HOL-Library.Monad_Syntax" "HOL-Library.Multiset"
begin

section \<open>The queue of \<^verbatim>\<open>queue.c\<close>: data model\<close>

text \<open>
  \<^verbatim>\<open>queue.c\<close> keeps a queue of strings in a singly linked list. Its two structs are
  declared in \<^verbatim>\<open>queue.h\<close>; the fields the code uses are \<^verbatim>\<open>value\<close> and \<^verbatim>\<open>next\<close> of a
  list element, and \<^verbatim>\<open>head\<close>, \<^verbatim>\<open>tail\<close> and \<^verbatim>\<open>size\<close> of a queue. (The names \<open>value\<close>,
  \<open>next\<close> and \<open>size\<close> are taken in Isabelle, so every field carries the suffix \<open>_f\<close>.)

  A pointer to a list element is an address, \<open>None\<close> being \<^verbatim>\<open>NULL\<close>. The heap maps the
  addresses of the live list elements to their contents; an address outside its domain
  is unallocated (never allocated, or freed). The character buffer a node owns through
  \<^verbatim>\<open>value\<close> is allocated and freed together with the node and is reachable from nowhere
  else, so the node holds its bytes directly.

  A computation that reads or writes through a pointer the heap does not hold, or that
  writes past the end of a buffer, has no defined result in C; a loop may also run
  forever. Both are the result \<open>None\<close>: \<open>Some\<close> means that the call returns, with the
  state and value given.
\<close>

type_synonym addr = nat

record list_ele_t =
  value_f :: string
  next_f :: "addr option"

type_synonym heap = "addr \<Rightarrow> list_ele_t option"

text \<open>
  Modelled from the spec: \<^verbatim>\<open>queue.h\<close> is not among the sources, so the type of the
  \<^verbatim>\<open>size\<close> field is not known; the spec calls it a count of nodes and an integer, and
  it is an unbounded \<open>int\<close> here.
\<close>

record queue_t =
  head_f :: "addr option"
  tail_f :: "addr option"
  size_f :: int

subsection \<open>C strings and the library functions the code calls\<close>

text \<open>
  A \<^verbatim>\<open>char *\<close> argument is \<open>None\<close> (\<^verbatim>\<open>NULL\<close>) or the bytes it points to. A C string ends
  at its first zero byte, and the end of the list stands for a terminator too.
\<close>

definition NUL :: char where
  "NUL = CHR 0x00"

definition c_str :: "string \<Rightarrow> string" where
  "c_str s = takeWhile (\<lambda>c. c \<noteq> NUL) s"

definition strlen :: "string \<Rightarrow> nat" where
  "strlen s = length (c_str s)"

text \<open>\<^verbatim>\<open>tolower\<close> in the C locale: the letters A to Z move to a to z.\<close>

definition tolower :: "char \<Rightarrow> char" where
  "tolower c =
     (let n = (of_char c :: nat) in if 65 \<le> n \<and> n \<le> 90 then char_of (n + 32) else c)"

text \<open>
  \<^verbatim>\<open>strcasecmp\<close> compares byte by byte after \<^verbatim>\<open>tolower\<close>, the bytes read as unsigned, and
  stops at the first difference or at the terminator of the first string.
\<close>

fun strcasecmp :: "string \<Rightarrow> string \<Rightarrow> int" where
  "strcasecmp [] [] = 0"
| "strcasecmp [] (y # ys) = 0 - int (of_char (tolower y))"
| "strcasecmp (x # xs) [] = int (of_char (tolower x)) - 0"
| "strcasecmp (x # xs) (y # ys) =
     (if tolower x = tolower y then (if x = NUL then 0 else strcasecmp xs ys)
      else int (of_char (tolower x)) - int (of_char (tolower y)))"

text \<open>
  \<^verbatim>\<open>strncpy (dest, src, n)\<close> writes exactly \<open>n\<close> bytes to \<open>dest\<close>: the first \<open>n\<close> bytes of
  the string \<open>src\<close>, then zero bytes if the string is shorter. \<open>dest\<close> is the caller's
  buffer, as long as the list; a write past its end has no defined result.
\<close>

definition strncpy :: "string \<Rightarrow> string \<Rightarrow> nat \<Rightarrow> string option" where
  "strncpy dest src n =
     (if n \<le> length dest
      then Some (take n (c_str src) @ replicate (n - strlen src) NUL @ drop n dest)
      else None)"

text \<open>\<^verbatim>\<open>dest[i] = c\<close>\<close>

definition store_char :: "string \<Rightarrow> nat \<Rightarrow> char \<Rightarrow> string option" where
  "store_char dest i c = (if i < length dest then Some (dest[i := c]) else None)"

text \<open>\<^verbatim>\<open>p->next = v\<close>\<close>

definition store_next :: "heap \<Rightarrow> addr option \<Rightarrow> addr option \<Rightarrow> heap option" where
  "store_next h p v =
     do { a \<leftarrow> p; e \<leftarrow> h a; Some (h(a \<mapsto> e\<lparr>next_f := v\<rparr>)) }"

text \<open>\<^verbatim>\<open>p->next\<close> and \<^verbatim>\<open>p->value\<close>, read\<close>

definition load_next :: "heap \<Rightarrow> addr option \<Rightarrow> addr option option" where
  "load_next h p = do { a \<leftarrow> p; e \<leftarrow> h a; Some (next_f e) }"

definition load_value :: "heap \<Rightarrow> addr option \<Rightarrow> string option" where
  "load_value h p = do { a \<leftarrow> p; e \<leftarrow> h a; Some (value_f e) }"

section \<open>The operations\<close>

subsection \<open>\<^verbatim>\<open>q_new\<close>, \<^verbatim>\<open>q_size\<close>\<close>

text \<open>\<open>malloc_ok\<close> tells whether \<^verbatim>\<open>malloc\<close> finds space for the queue.\<close>

definition q_new :: "bool \<Rightarrow> queue_t option" where
  "q_new malloc_ok =
     (if \<not> malloc_ok then None else Some \<lparr>head_f = None, tail_f = None, size_f = 0\<rparr>)"

definition q_size :: "queue_t option \<Rightarrow> int" where
  "q_size q = (case q of None \<Rightarrow> 0 | Some qs \<Rightarrow> size_f qs)"

subsection \<open>\<^verbatim>\<open>q_allocate_node\<close>\<close>

text \<open>
  The two calls of \<^verbatim>\<open>malloc\<close> are answered by the environment: \<open>node_malloc\<close> is the
  address the first call returns (\<open>None\<close> when it fails), \<open>value_malloc\<close> tells whether
  the second call, for the copy of the string, succeeds. The length \<^verbatim>\<open>s_len\<close> is
  \<^verbatim>\<open>strlen (s) + 1\<close>, which cannot wrap: the string and its terminator lie in memory.
  \<^verbatim>\<open>memcpy\<close> copies these \<^verbatim>\<open>s_len\<close> bytes: the string and its terminator.
\<close>

definition q_allocate_node ::
  "heap \<Rightarrow> string option \<Rightarrow> addr option \<Rightarrow> bool \<Rightarrow> heap \<times> addr option" where
  "q_allocate_node h s node_malloc value_malloc =
     (case s of
        None \<Rightarrow> (h, None)
      | Some str \<Rightarrow>
          let s_len = strlen str + 1 in
          if s_len = 1 then (h, None)
          else
            (case node_malloc of
               None \<Rightarrow> (h, None)
             | Some node \<Rightarrow>
                 if \<not> value_malloc then (h(node := None), None)
                 else (h(node \<mapsto> \<lparr>value_f = c_str str, next_f = None\<rparr>), Some node)))"

subsection \<open>\<^verbatim>\<open>q_insert_head\<close>, \<^verbatim>\<open>q_insert_tail\<close>\<close>

text \<open>
  The queue argument is \<open>None\<close> for \<^verbatim>\<open>NULL\<close>, or the contents of the struct it points
  to. Each operation returns the heap and the struct as the call leaves them, and the
  value the C function returns.
\<close>

definition q_insert_head ::
  "heap \<Rightarrow> queue_t option \<Rightarrow> string option \<Rightarrow> addr option \<Rightarrow> bool \<Rightarrow>
   (heap \<times> queue_t option \<times> bool) option" where
  "q_insert_head h q s node_malloc value_malloc =
     (case q of
        None \<Rightarrow> Some (h, None, False)
      | Some qs \<Rightarrow>
          (case q_allocate_node h s node_malloc value_malloc of
             (h1, None) \<Rightarrow> Some (h1, q, False)
           | (h1, Some node) \<Rightarrow>
               do {
                 h2 \<leftarrow> store_next h1 (Some node) (head_f qs);
                 let qs1 = qs\<lparr>head_f := Some node\<rparr>;
                 let qs2 = (if tail_f qs1 = None then qs1\<lparr>tail_f := Some node\<rparr> else qs1);
                 Some (h2, Some (qs2\<lparr>size_f := size_f qs2 + 1\<rparr>), True)
               }))"

definition q_insert_tail ::
  "heap \<Rightarrow> queue_t option \<Rightarrow> string option \<Rightarrow> addr option \<Rightarrow> bool \<Rightarrow>
   (heap \<times> queue_t option \<times> bool) option" where
  "q_insert_tail h q s node_malloc value_malloc =
     (case q of
        None \<Rightarrow> Some (h, None, False)
      | Some qs \<Rightarrow>
          (case q_allocate_node h s node_malloc value_malloc of
             (h1, None) \<Rightarrow> Some (h1, q, False)
           | (h1, Some node) \<Rightarrow>
               do {
                 let qs1 = (if head_f qs = None then qs\<lparr>head_f := Some node\<rparr> else qs);
                 h2 \<leftarrow> (if tail_f qs1 \<noteq> None then store_next h1 (tail_f qs1) (Some node)
                        else Some h1);
                 let qs2 = qs1\<lparr>tail_f := Some node\<rparr>;
                 Some (h2, Some (qs2\<lparr>size_f := size_f qs2 + 1\<rparr>), True)
               }))"

subsection \<open>\<^verbatim>\<open>q_remove_head\<close>\<close>

text \<open>
  \<open>sp\<close> is \<open>None\<close> for \<^verbatim>\<open>NULL\<close> or the caller's buffer; \<open>bufsize\<close> is a \<^verbatim>\<open>size_t\<close>, 64 bits
  wide, so that \<^verbatim>\<open>bufsize - 1\<close> wraps around at 0. The buffer is returned as the call
  leaves it.
\<close>

definition copy_out :: "string option \<Rightarrow> string \<Rightarrow> 64 word \<Rightarrow> string option option" where
  "copy_out sp src bufsize =
     (case sp of
        None \<Rightarrow> Some None
      | Some buf \<Rightarrow>
          do {
            buf1 \<leftarrow> strncpy buf src (unat (bufsize - 1));
            buf2 \<leftarrow> store_char buf1 (unat (bufsize - 1)) NUL;
            Some (Some buf2)
          })"

definition q_remove_head ::
  "heap \<Rightarrow> queue_t option \<Rightarrow> string option \<Rightarrow> 64 word \<Rightarrow>
   (heap \<times> queue_t option \<times> string option \<times> bool) option" where
  "q_remove_head h q sp bufsize =
     (case q of
        None \<Rightarrow> Some (h, None, sp, False)
      | Some qs \<Rightarrow>
          if head_f qs = None then Some (h, q, sp, False)
          else
            do {
              let head = head_f qs;
              nxt \<leftarrow> load_next h head;
              let qs1 = qs\<lparr>head_f := nxt\<rparr>;
              let qs2 = (if tail_f qs1 = head then qs1\<lparr>tail_f := None\<rparr> else qs1);
              v \<leftarrow> load_value h head;
              sp1 \<leftarrow> copy_out sp v bufsize;
              a \<leftarrow> head;
              let h1 = h(a := None);
              Some (h1, Some (qs2\<lparr>size_f := size_f qs2 - 1\<rparr>), sp1, True)
            })"

subsection \<open>\<^verbatim>\<open>q_reverse\<close>\<close>

partial_function (option) reverse_loop ::
  "heap \<Rightarrow> addr option \<Rightarrow> addr option \<Rightarrow> (heap \<times> addr option) option" where
  "reverse_loop h prev cur =
     (if cur \<noteq> None then
        do {
          nxt \<leftarrow> load_next h cur;
          h1 \<leftarrow> store_next h cur prev;
          reverse_loop h1 cur nxt
        }
      else Some (h, prev))"

definition q_reverse :: "heap \<Rightarrow> queue_t option \<Rightarrow> (heap \<times> queue_t option) option" where
  "q_reverse h q =
     (case q of
        None \<Rightarrow> Some (h, None)
      | Some qs \<Rightarrow>
          if head_f qs = None then Some (h, q)
          else
            do {
              let qs1 = qs\<lparr>tail_f := head_f qs\<rparr>;
              (h1, prev) \<leftarrow> reverse_loop h None (head_f qs);
              Some (h1, Some (qs1\<lparr>head_f := prev\<rparr>))
            })"

subsection \<open>\<^verbatim>\<open>merge\<close>\<close>

text \<open>
  The loop of \<^verbatim>\<open>merge\<close>, on the variables \<^verbatim>\<open>cur\<close>, \<^verbatim>\<open>left\<close> and \<^verbatim>\<open>right\<close>; it returns them
  with the heap.
\<close>

partial_function (option) merge_loop ::
  "heap \<Rightarrow> addr option \<Rightarrow> addr option \<Rightarrow> addr option \<Rightarrow>
   (heap \<times> addr option \<times> addr option \<times> addr option) option" where
  "merge_loop h cur left right =
     (if left \<noteq> None \<and> right \<noteq> None then
        do {
          lv \<leftarrow> load_value h left;
          rv \<leftarrow> load_value h right;
          if strcasecmp lv rv < 1 then
            do {
              h1 \<leftarrow> store_next h cur left;
              left1 \<leftarrow> load_next h1 left;
              cur1 \<leftarrow> load_next h1 cur;
              merge_loop h1 cur1 left1 right
            }
          else
            do {
              h1 \<leftarrow> store_next h cur right;
              right1 \<leftarrow> load_next h1 right;
              cur1 \<leftarrow> load_next h1 cur;
              merge_loop h1 cur1 left right1
            }
        }
      else Some (h, cur, left, right))"

definition merge ::
  "heap \<Rightarrow> addr option \<Rightarrow> addr option \<Rightarrow> (heap \<times> addr option) option" where
  "merge h left right =
     (if left = None then Some (h, right)
      else if right = None then Some (h, left)
      else
        do {
          lv \<leftarrow> load_value h left;
          rv \<leftarrow> load_value h right;
          (result, left1, right1) \<leftarrow>
            (if strcasecmp lv rv < 1
             then do { n \<leftarrow> load_next h left; Some (left, n, right) }
             else do { n \<leftarrow> load_next h right; Some (right, left, n) });
          (h1, cur, left2, right2) \<leftarrow> merge_loop h result left1 right1;
          h2 \<leftarrow> (if left2 \<noteq> None then store_next h1 cur left2 else Some h1);
          h3 \<leftarrow> (if right2 \<noteq> None then store_next h2 cur right2 else Some h2);
          Some (h3, result)
        })"

subsection \<open>\<^verbatim>\<open>merge_sort\<close>\<close>

text \<open>The walk of the fast and the slow pointer; it returns \<^verbatim>\<open>slow\<close>.\<close>

partial_function (option) split_loop ::
  "heap \<Rightarrow> addr option \<Rightarrow> addr option \<Rightarrow> addr option option" where
  "split_loop h fast slow =
     (if fast \<noteq> None \<and> load_next h fast \<noteq> Some None then
        do {
          f1 \<leftarrow> load_next h fast;
          fast1 \<leftarrow> load_next h f1;
          slow1 \<leftarrow> load_next h slow;
          split_loop h fast1 slow1
        }
      else Some slow)"

partial_function (option) merge_sort ::
  "heap \<Rightarrow> addr option \<Rightarrow> (heap \<times> addr option) option" where
  "merge_sort h head =
     (if head = None \<or> load_next h head = Some None then Some (h, head)
      else
        do {
          fast \<leftarrow> load_next h head;
          slow \<leftarrow> split_loop h fast head;
          let left = head;
          right \<leftarrow> load_next h slow;
          h1 \<leftarrow> store_next h slow None;
          (h2, left1) \<leftarrow> merge_sort h1 left;
          (h3, right1) \<leftarrow> merge_sort h2 right;
          merge h3 left1 right1
        })"

subsection \<open>\<^verbatim>\<open>q_sort\<close>\<close>

text \<open>The loop that moves \<^verbatim>\<open>q->tail\<close> to the last node.\<close>

partial_function (option) tail_loop :: "heap \<Rightarrow> addr option \<Rightarrow> addr option option" where
  "tail_loop h tail =
     (if tail \<noteq> None \<and> load_next h tail \<noteq> Some None then
        do { n \<leftarrow> load_next h tail; tail_loop h n }
      else Some tail)"

definition q_sort :: "heap \<Rightarrow> queue_t option \<Rightarrow> (heap \<times> queue_t option) option" where
  "q_sort h q =
     (case q of
        None \<Rightarrow> Some (h, None)
      | Some qs \<Rightarrow>
          if head_f qs = None then Some (h, q)
          else if head_f qs = tail_f qs then Some (h, q)
          else
            do {
              (h1, head1) \<leftarrow> merge_sort h (head_f qs);
              let qs1 = qs\<lparr>head_f := head1\<rparr>;
              tail1 \<leftarrow> tail_loop h1 (head_f qs1);
              Some (h1, Some (qs1\<lparr>tail_f := tail1\<rparr>))
            })"

text \<open>The loops unfold by their defining equations when they are run.\<close>

declare reverse_loop.simps [code] merge_loop.simps [code] split_loop.simps [code]
  merge_sort.simps [code] tail_loop.simps [code]

section \<open>Well-formed queues and what a traversal sees\<close>

text \<open>
  \<open>walk h p n\<close> follows \<^verbatim>\<open>next\<close> from \<open>p\<close> and returns the addresses of the first \<open>n\<close>
  nodes, if there are as many.
\<close>

fun walk :: "heap \<Rightarrow> addr option \<Rightarrow> nat \<Rightarrow> addr list option" where
  "walk h p 0 = Some []"
| "walk h p (Suc n) =
     (case p of
        None \<Rightarrow> None
      | Some a \<Rightarrow>
          (case h a of
             None \<Rightarrow> None
           | Some e \<Rightarrow> map_option ((#) a) (walk h (next_f e) n)))"

text \<open>
  The invariants of the data model: \<open>size\<close> is 0 iff \<open>head\<close> is none iff \<open>tail\<close> is none;
  following \<open>next\<close> from \<open>head\<close> visits \<open>size\<close> nodes, the last of them (after \<open>size - 1\<close>
  steps) is \<open>tail\<close>, and the \<open>next\<close> of \<open>tail\<close> is none; no node is visited twice.
\<close>

definition queue_inv :: "heap \<Rightarrow> queue_t \<Rightarrow> bool" where
  "queue_inv h q \<longleftrightarrow>
     0 \<le> size_f q \<and>
     ((size_f q = 0) = (head_f q = None)) \<and>
     ((head_f q = None) = (tail_f q = None)) \<and>
     (case walk h (head_f q) (nat (size_f q)) of
        None \<Rightarrow> False
      | Some as \<Rightarrow>
          distinct as \<and>
          (as \<noteq> [] \<longrightarrow> tail_f q = Some (last as) \<and> load_next h (tail_f q) = Some None))"

text \<open>The nodes of a queue in traversal order, and their payloads.\<close>

definition q_nodes :: "heap \<Rightarrow> queue_t \<Rightarrow> addr list" where
  "q_nodes h q = (case walk h (head_f q) (nat (size_f q)) of None \<Rightarrow> [] | Some as \<Rightarrow> as)"

definition payload :: "heap \<Rightarrow> addr \<Rightarrow> string" where
  "payload h a = (case h a of None \<Rightarrow> [] | Some e \<Rightarrow> value_f e)"

definition q_values :: "heap \<Rightarrow> queue_t \<Rightarrow> string list" where
  "q_values h q = map (payload h) (q_nodes h q)"

text \<open>The order of the sort: \<^verbatim>\<open>strcasecmp (a, b) < 1\<close>, and its ties.\<close>

definition case_le :: "string \<Rightarrow> string \<Rightarrow> bool" where
  "case_le a b \<longleftrightarrow> strcasecmp a b < 1"

definition case_eq :: "string \<Rightarrow> string \<Rightarrow> bool" where
  "case_eq a b \<longleftrightarrow> strcasecmp a b = 0"

text \<open>What a malloc may return: an address that is not allocated.\<close>

definition fresh :: "heap \<Rightarrow> addr option \<Rightarrow> bool" where
  "fresh h node_malloc = (case node_malloc of None \<Rightarrow> True | Some a \<Rightarrow> h a = None)"

text \<open>
  What the caller of \<^verbatim>\<open>q_remove_head\<close> owes: a buffer, when supplied, has at least
  \<open>bufsize\<close> bytes, and \<open>bufsize\<close> is at least 1.
\<close>

definition buffer_ok :: "string option \<Rightarrow> 64 word \<Rightarrow> bool" where
  "buffer_ok sp bufsize =
     (case sp of None \<Rightarrow> True | Some buf \<Rightarrow> bufsize \<noteq> 0 \<and> unat bufsize \<le> length buf)"

section \<open>The list a chain of nodes holds\<close>

text \<open>\<open>chain h p as\<close>: from \<open>p\<close>, \<^verbatim>\<open>next\<close> runs through the nodes \<open>as\<close> and ends in \<^verbatim>\<open>NULL\<close>.\<close>

fun chain :: "heap \<Rightarrow> addr option \<Rightarrow> addr list \<Rightarrow> bool" where
  "chain h p [] = (p = None)"
| "chain h p (a # as) =
     (p = Some a \<and> (case h a of None \<Rightarrow> False | Some e \<Rightarrow> chain h (next_f e) as))"

definition last_opt :: "addr list \<Rightarrow> addr option" where
  "last_opt as = (if as = [] then None else Some (last as))"

text \<open>\<open>path h p as q\<close>: a part of a chain, from \<open>p\<close> through the nodes \<open>as\<close> to \<open>q\<close>.\<close>

fun path :: "heap \<Rightarrow> addr option \<Rightarrow> addr list \<Rightarrow> addr option \<Rightarrow> bool" where
  "path h p [] q = (p = q)"
| "path h p (a # as) q =
     (p = Some a \<and> (case h a of None \<Rightarrow> False | Some e \<Rightarrow> path h (next_f e) as q))"

text \<open>
  \<^verbatim>\<open>merge\<close> and \<^verbatim>\<open>merge_sort\<close> seen on the list of nodes: \<open>k\<close> gives the payload of a node.
  The left part of the split has \<open>(n + 1) div 2\<close> of the \<open>n\<close> nodes.
\<close>

fun merge_list :: "(addr \<Rightarrow> string) \<Rightarrow> addr list \<Rightarrow> addr list \<Rightarrow> addr list" where
  "merge_list k [] ys = ys"
| "merge_list k (x # xs) [] = x # xs"
| "merge_list k (x # xs) (y # ys) =
     (if strcasecmp (k x) (k y) < 1 then x # merge_list k xs (y # ys)
      else y # merge_list k (x # xs) ys)"

function merge_sort_list :: "(addr \<Rightarrow> string) \<Rightarrow> addr list \<Rightarrow> addr list" where
  "merge_sort_list k as =
     (if length as \<le> 1 then as
      else merge_list k (merge_sort_list k (take ((length as + 1) div 2) as))
                        (merge_sort_list k (drop ((length as + 1) div 2) as)))"
  by pat_completeness auto
termination
  by (relation "measure (\<lambda>(k, as). length as)") auto

declare merge_sort_list.simps [simp del]

section \<open>A queue to run the operations on\<close>

text \<open>Three nodes at the addresses 1, 2 and 3, holding banana, Apple and cherry.\<close>

definition h_ex :: heap where
  "h_ex = [1 \<mapsto> \<lparr>value_f = ''banana'', next_f = Some 2\<rparr>,
           2 \<mapsto> \<lparr>value_f = ''Apple'', next_f = Some 3\<rparr>,
           3 \<mapsto> \<lparr>value_f = ''cherry'', next_f = None\<rparr>]"

definition q_ex :: queue_t where
  "q_ex = \<lparr>head_f = Some 1, tail_f = Some 3, size_f = 3\<rparr>"

text \<open>Four nodes with ties: b, a, B and A at the addresses 1 to 4.\<close>

definition h_ties :: heap where
  "h_ties = [1 \<mapsto> \<lparr>value_f = ''b'', next_f = Some 2\<rparr>,
             2 \<mapsto> \<lparr>value_f = ''a'', next_f = Some 3\<rparr>,
             3 \<mapsto> \<lparr>value_f = ''B'', next_f = Some 4\<rparr>,
             4 \<mapsto> \<lparr>value_f = ''A'', next_f = None\<rparr>]"

definition q_ties :: queue_t where
  "q_ties = \<lparr>head_f = Some 1, tail_f = Some 4, size_f = 4\<rparr>"

subsection \<open>The operations, run\<close>

text \<open>Each result below is computed from the definitions above.\<close>

lemma sort_example:
  "(case q_sort h_ex (Some q_ex) of
      Some (h', Some q') \<Rightarrow> (q_values h' q', q_nodes h' q', head_f q', tail_f q', size_f q')
    | _ \<Rightarrow> ([], [], None, None, 0)) =
   ([''Apple'', ''banana'', ''cherry''], [2, 1, 3], Some 2, Some 3, 3)"
  by code_simp

text \<open>With ties: a stays before A, and b before B.\<close>

lemma sort_ties_example:
  "(case q_sort h_ties (Some q_ties) of
      Some (h', Some q') \<Rightarrow> (q_values h' q', q_nodes h' q', head_f q', tail_f q', size_f q')
    | _ \<Rightarrow> ([], [], None, None, 0)) =
   ([''a'', ''A'', ''b'', ''B''], [2, 4, 1, 3], Some 2, Some 3, 4)"
  by code_simp

lemma reverse_example:
  "(case q_reverse h_ex (Some q_ex) of
      Some (h', Some q') \<Rightarrow> (q_values h' q', q_nodes h' q', head_f q', tail_f q', size_f q')
    | _ \<Rightarrow> ([], [], None, None, 0)) =
   ([''cherry'', ''Apple'', ''banana''], [3, 2, 1], Some 3, Some 1, 3)"
  by code_simp

text \<open>banana, apple and cherry inserted at the tail of a new queue, then sorted.\<close>

lemma insert_tail_sort_example:
  "(case q_insert_tail Map.empty (q_new True) (Some ''banana'') (Some 1) True of
      Some (h1, q1, r1) \<Rightarrow>
        (case q_insert_tail h1 q1 (Some ''apple'') (Some 2) True of
           Some (h2, q2, r2) \<Rightarrow>
             (case q_insert_tail h2 q2 (Some ''cherry'') (Some 3) True of
                Some (h3, q3, r3) \<Rightarrow>
                  (case q_sort h3 q3 of
                     Some (h4, Some q4) \<Rightarrow> (r1, r2, r3, q_size q3, q_values h4 q4)
                   | _ \<Rightarrow> (False, False, False, 0, []))
              | None \<Rightarrow> (False, False, False, 0, []))
         | None \<Rightarrow> (False, False, False, 0, []))
    | None \<Rightarrow> (False, False, False, 0, [])) =
   (True, True, True, 3, [''apple'', ''banana'', ''cherry''])"
  by code_simp

text \<open>a, then b inserted at the head, then reversed.\<close>

lemma insert_head_reverse_example:
  "(case q_insert_head Map.empty (q_new True) (Some ''a'') (Some 1) True of
      Some (h1, q1, r1) \<Rightarrow>
        (case q_insert_head h1 q1 (Some ''b'') (Some 2) True of
           Some (h2, Some q2, r2) \<Rightarrow>
             (case q_reverse h2 (Some q2) of
                Some (h3, Some q3) \<Rightarrow> (q_values h2 q2, q_values h3 q3)
              | _ \<Rightarrow> ([], []))
         | _ \<Rightarrow> ([], []))
    | None \<Rightarrow> ([], [])) =
   ([''b'', ''a''], [''a'', ''b''])"
  by code_simp

lemma remove_head_example:
  "(case q_remove_head h_ex (Some q_ex) (Some ''xxxxxxxxxx'') 4 of
      Some (h', Some q', sp', r) \<Rightarrow> (q_values h' q', sp', r, size_f q')
    | _ \<Rightarrow> ([], None, False, 0)) =
   ([''Apple'', ''cherry''], Some (''ban'' @ [NUL] @ ''xxxxxx''), True, 2)"
  by code_simp

lemma remove_head_empty_example:
  "(case q_remove_head Map.empty (q_new True) None 0 of
      Some (h', q', sp', r) \<Rightarrow> (r, q_size q')
    | None \<Rightarrow> (True, 1)) = (False, 0)"
  by code_simp

lemma insert_empty_string_example:
  "(case q_insert_head h_ex (Some q_ex) (Some []) (Some 7) True of
      Some (h', Some q', r) \<Rightarrow> (r, size_f q', q_values h' q')
    | _ \<Rightarrow> (True, 0, [])) =
   (False, 3, [''banana'', ''Apple'', ''cherry''])"
  by code_simp

section \<open>The order of \<^verbatim>\<open>strcasecmp\<close>\<close>

lemma of_char_NUL: "(of_char c :: nat) = 0 \<longleftrightarrow> c = NUL"
proof -
  have "(of_char c :: nat) = of_char NUL \<longleftrightarrow> c = NUL"
    by (simp only: of_char_eq_iff)
  then show ?thesis by (simp add: NUL_def)
qed

lemma tolower_NUL_iff: "tolower x = NUL \<longleftrightarrow> x = NUL"
proof -
  have "tolower x = NUL \<longleftrightarrow> (of_char (tolower x) :: nat) = 0"
    by (simp only: of_char_NUL)
  also have "\<dots> \<longleftrightarrow> (of_char x :: nat) = 0"
    by (auto simp: tolower_def Let_def)
  also have "\<dots> \<longleftrightarrow> x = NUL"
    by (simp only: of_char_NUL)
  finally show ?thesis .
qed

lemma tolower_NUL: "tolower NUL = NUL"
  by (simp only: tolower_NUL_iff)

lemma NUL_tolower_iff: "NUL = tolower x \<longleftrightarrow> x = NUL"
  using tolower_NUL_iff [of x] by auto

lemma of_char_NUL_eq: "(of_char NUL :: nat) = 0"
  by (simp only: of_char_NUL)

lemmas nul_simps = tolower_NUL tolower_NUL_iff NUL_tolower_iff of_char_NUL of_char_NUL_eq

lemma strcasecmp_swap: "strcasecmp b a = - strcasecmp a b"
  by (induction a b rule: strcasecmp.induct) (auto simp: nul_simps)

lemma strcasecmp_trans:
  "strcasecmp a b \<le> 0 \<Longrightarrow> strcasecmp b c \<le> 0 \<Longrightarrow> strcasecmp a c \<le> 0"
proof (induction a arbitrary: b c)
  case Nil
  then show ?case by (cases c) auto
next
  case (Cons x xs)
  show ?case
  proof (cases b)
    case Nil
    with Cons.prems show ?thesis
      by (cases c) (auto simp: nul_simps split: if_splits)
  next
    case b: (Cons y ys)
    show ?thesis
    proof (cases c)
      case Nil
      with Cons.prems b show ?thesis
        by (auto simp: nul_simps split: if_splits)
    next
      case c: (Cons z zs)
      with Cons.prems b Cons.IH [of ys zs] show ?thesis
        by (auto simp: nul_simps split: if_splits)
    qed
  qed
qed

lemma case_le_total: "case_le a b \<or> case_le b a"
  using strcasecmp_swap [of a b] by (auto simp: case_le_def)

lemma case_le_trans: "case_le a b \<Longrightarrow> case_le b c \<Longrightarrow> case_le a c"
  using strcasecmp_trans [of a b c] by (simp add: case_le_def)

lemma case_eq_iff: "case_eq a b \<longleftrightarrow> case_le a b \<and> case_le b a"
  using strcasecmp_swap [of a b] by (auto simp: case_le_def case_eq_def)

section \<open>Chains and the invariant\<close>

lemma chain_None: "chain h None as \<longleftrightarrow> as = []"
  by (cases as) auto

lemma chain_frame: "(\<And>a. a \<in> set as \<Longrightarrow> h' a = h a) \<Longrightarrow> chain h' p as = chain h p as"
  by (induction as arbitrary: p) (auto split: option.splits)

lemma chain_upd: "a \<notin> set as \<Longrightarrow> chain (h(a := v)) p as = chain h p as"
  by (rule chain_frame) auto

lemma chain_walk: "chain h p as \<Longrightarrow> walk h p (length as) = Some as"
  by (induction as arbitrary: p) (auto split: option.splits)

lemma walk_length: "walk h p n = Some as \<Longrightarrow> length as = n"
  by (induction n arbitrary: p as) (auto split: option.splits)

lemma chain_last: "chain h p as \<Longrightarrow> as \<noteq> [] \<Longrightarrow> load_next h (Some (last as)) = Some None"
  by (induction as arbitrary: p) (auto simp: load_next_def chain_None split: option.splits)

lemma walk_chain:
  "walk h p n = Some as \<Longrightarrow> as \<noteq> [] \<Longrightarrow> load_next h (Some (last as)) = Some None \<Longrightarrow> chain h p as"
proof (induction n arbitrary: p as)
  case 0
  then show ?case by simp
next
  case (Suc n)
  from Suc.prems(1) obtain a e bs where p: "p = Some a" and e: "h a = Some e"
    and w: "walk h (next_f e) n = Some bs" and as: "as = a # bs"
    by (auto split: option.splits)
  show ?case
  proof (cases "bs = []")
    case True
    with Suc.prems(3) as e have "next_f e = None" by (simp add: load_next_def)
    with True p e as show ?thesis by simp
  next
    case False
    with Suc.prems(3) as have "load_next h (Some (last bs)) = Some None" by simp
    with Suc.IH [OF w False] have "chain h (next_f e) bs" .
    with p e as show ?thesis by simp
  qed
qed

lemma chain_Cons_head: "chain h p as \<Longrightarrow> as \<noteq> [] \<Longrightarrow> p = Some (hd as)"
  by (cases as) auto

lemma queue_invI:
  assumes "chain h (head_f q) as" "distinct as" "size_f q = int (length as)"
    "tail_f q = last_opt as"
  shows "queue_inv h q" "q_nodes h q = as"
  using assms chain_walk [OF assms(1)] chain_last [OF assms(1)] chain_Cons_head [OF assms(1)]
  by (auto simp: queue_inv_def q_nodes_def last_opt_def chain_None)

lemma queue_invD:
  assumes "queue_inv h q"
  shows "chain h (head_f q) (q_nodes h q)" "distinct (q_nodes h q)"
    "size_f q = int (length (q_nodes h q))" "tail_f q = last_opt (q_nodes h q)"
proof -
  from assms obtain as where w: "walk h (head_f q) (nat (size_f q)) = Some as"
    and d: "distinct as"
    and t: "as \<noteq> [] \<Longrightarrow> tail_f q = Some (last as) \<and> load_next h (tail_f q) = Some None"
    by (auto simp: queue_inv_def split: option.splits)
  have n: "q_nodes h q = as" using w by (simp add: q_nodes_def)
  have l: "length as = nat (size_f q)" using w by (rule walk_length)
  show "distinct (q_nodes h q)" using d n by simp
  show "size_f q = int (length (q_nodes h q))" using assms l n by (simp add: queue_inv_def)
  show "tail_f q = last_opt (q_nodes h q)"
    using assms l n t by (auto simp: queue_inv_def last_opt_def)
  show "chain h (head_f q) (q_nodes h q)"
  proof (cases "as = []")
    case True
    with assms l n show ?thesis by (auto simp: queue_inv_def)
  next
    case False
    with t w n show ?thesis by (auto intro: walk_chain)
  qed
qed

lemma chain_path: "chain h p as = path h p as None"
  by (induction as arbitrary: p) (auto split: option.splits)

lemma path_append: "path h p (xs @ ys) q = (\<exists>m. path h p xs m \<and> path h m ys q)"
  by (induction xs arbitrary: p) (auto split: option.splits)

lemma path_frame: "(\<And>a. a \<in> set as \<Longrightarrow> h' a = h a) \<Longrightarrow> path h' p as q = path h p as q"
  by (induction as arbitrary: p) (auto split: option.splits)

lemma path_upd: "a \<notin> set as \<Longrightarrow> path (h(a := v)) p as q = path h p as q"
  by (rule path_frame) auto

lemma path_dom: "path h p as q \<Longrightarrow> a \<in> set as \<Longrightarrow> h a \<noteq> None"
  by (induction as arbitrary: p) (auto split: option.splits)

lemma chain_dom: "chain h p as \<Longrightarrow> a \<in> set as \<Longrightarrow> h a \<noteq> None"
  by (simp add: chain_path path_dom)

lemma path_snoc:
  "path h p (xs @ [a]) q \<longleftrightarrow> path h p xs (Some a) \<and> load_next h (Some a) = Some q"
  by (auto simp: path_append load_next_def split: option.splits bind_splits)

text \<open>Writing the \<^verbatim>\<open>next\<close> of the last node of a path redirects its end.\<close>

lemma path_redirect:
  assumes "path h p (xs @ [a]) q" "a \<notin> set xs" "store_next h (Some a) q' = Some h'"
  shows "path h' p (xs @ [a]) q'"
proof -
  from assms(1) obtain e where e: "h a = Some e" and xs: "path h p xs (Some a)"
    by (auto simp: path_snoc load_next_def split: bind_splits)
  from assms(3) e have h': "h' = h(a \<mapsto> e\<lparr>next_f := q'\<rparr>)"
    by (simp add: store_next_def)
  from xs assms(2) have "path h' p xs (Some a)" by (simp add: h' path_upd)
  then show ?thesis by (simp add: path_snoc load_next_def h')
qed

lemma store_next_Some:
  "h a \<noteq> None \<Longrightarrow> \<exists>h'. store_next h (Some a) v = Some h'"
  by (auto simp: store_next_def)

lemma store_next_frame: "store_next h (Some a) v = Some h' \<Longrightarrow> b \<noteq> a \<Longrightarrow> h' b = h b"
  by (auto simp: store_next_def split: bind_splits)

lemma store_next_value:
  "store_next h p v = Some h' \<Longrightarrow> map_option value_f (h' b) = map_option value_f (h b)"
  by (auto simp: store_next_def split: bind_splits)

lemma payload_cong: "map_option value_f (h' b) = map_option value_f (h b) \<Longrightarrow> payload h' b = payload h b"
  by (auto simp: payload_def split: option.splits)

section \<open>Insertion and removal on a well-formed queue\<close>

lemma q_allocate_node_fail:
  "fresh h node_malloc \<Longrightarrow>
   s = None \<or> (\<exists>str. s = Some str \<and> strlen str = 0) \<or> node_malloc = None \<or> \<not> value_malloc \<Longrightarrow>
   q_allocate_node h s node_malloc value_malloc = (h, None)"
  by (auto simp: q_allocate_node_def fresh_def split: option.splits)

lemma q_allocate_node_ok:
  "strlen str \<noteq> 0 \<Longrightarrow>
   q_allocate_node h (Some str) (Some a) True =
     (h(a \<mapsto> \<lparr>value_f = c_str str, next_f = None\<rparr>), Some a)"
  by (simp add: q_allocate_node_def)

lemma q_insert_head_ok:
  assumes inv: "queue_inv h q" and fr: "h a = None" and s: "strlen str \<noteq> 0"
  defines "h' \<equiv> h(a \<mapsto> \<lparr>value_f = c_str str, next_f = head_f q\<rparr>)"
  defines "q' \<equiv> q\<lparr>head_f := Some a, tail_f := (if tail_f q = None then Some a else tail_f q),
                  size_f := size_f q + 1\<rparr>"
  shows "q_insert_head h (Some q) (Some str) (Some a) True = Some (h', Some q', True)"
    and "queue_inv h' q'" and "q_nodes h' q' = a # q_nodes h q"
    and "q_values h' q' = c_str str # q_values h q"
proof -
  let ?as = "q_nodes h q"
  note d = queue_invD [OF inv]
  show "q_insert_head h (Some q) (Some str) (Some a) True = Some (h', Some q', True)"
    by (simp add: q_insert_head_def q_allocate_node_ok [OF s] store_next_def h'_def q'_def Let_def)
  have a: "a \<notin> set ?as" using chain_dom [OF d(1), of a] fr by auto
  have c: "chain h' (Some a) (a # ?as)"
    using d(1) a by (simp add: h'_def chain_upd)
  have t: "tail_f q' = last_opt (a # ?as)"
    using d(4) by (auto simp: q'_def last_opt_def)
  have c': "chain h' (head_f q') (a # ?as)" using c by (simp add: q'_def)
  have d': "distinct (a # ?as)" using a d(2) by simp
  have s': "size_f q' = int (length (a # ?as))" using d(3) by (simp add: q'_def)
  show "queue_inv h' q'" and n: "q_nodes h' q' = a # q_nodes h q"
    using queue_invI [OF c' d' s' t] by blast+
  have m: "map (payload h') ?as = map (payload h) ?as"
    using a by (intro map_cong [OF refl]) (auto simp: payload_def h'_def)
  have p: "payload h' a = c_str str"
    by (simp add: payload_def h'_def)
  show "q_values h' q' = c_str str # q_values h q"
    unfolding q_values_def n using m p by simp
qed

lemma chain_snoc:
  assumes "chain h p as" "as \<noteq> []" "distinct as" "a \<notin> set as"
    "store_next (h(a \<mapsto> n)) (Some (last as)) (Some a) = Some h'" "next_f n = None"
  shows "chain h' p (as @ [a])"
proof -
  let ?h1 = "h(a \<mapsto> n)"
  from assms(2) obtain bs t where as: "as = bs @ [t]" by (cases as rule: rev_cases) auto
  from assms(1) assms(4) have p1: "path ?h1 p (bs @ [t]) None"
    unfolding chain_path as by (subst path_upd) auto
  from assms(3) have p2: "t \<notin> set bs" by (simp add: as)
  from assms(5) have p3: "store_next ?h1 (Some t) (Some a) = Some h'" by (simp add: as)
  have "path h' p (bs @ [t]) (Some a)"
    by (rule path_redirect [OF p1 p2 p3])
  moreover have "h' a = Some n"
    using store_next_frame [OF assms(5), of a] assms(4) last_in_set [OF assms(2)] by auto
  ultimately have "path h' p ((bs @ [t]) @ [a]) None"
    unfolding path_snoc [of h' p "bs @ [t]"] using assms(6) by (simp add: load_next_def)
  then show ?thesis by (simp add: chain_path as)
qed

lemma q_insert_tail_ok:
  assumes inv: "queue_inv h q" and fr: "h a = None" and s: "strlen str \<noteq> 0"
  shows "\<exists>h' q'. q_insert_tail h (Some q) (Some str) (Some a) True = Some (h', Some q', True) \<and>
    queue_inv h' q' \<and> q_nodes h' q' = q_nodes h q @ [a] \<and>
    q_values h' q' = q_values h q @ [c_str str] \<and> size_f q' = size_f q + 1 \<and>
    head_f q' = (if head_f q = None then Some a else head_f q) \<and> tail_f q' = Some a"
proof -
  let ?as = "q_nodes h q"
  let ?n = "\<lparr>value_f = c_str str, next_f = None\<rparr>"
  let ?h1 = "h(a \<mapsto> ?n)"
  note d = queue_invD [OF inv]
  have a: "a \<notin> set ?as" using chain_dom [OF d(1), of a] fr by auto
  show ?thesis
  proof (cases "?as = []")
    case True
    with d have e: "head_f q = None" "tail_f q = None" "size_f q = 0"
      by (simp_all add: last_opt_def)
    let ?q' = "\<lparr>head_f = Some a, tail_f = Some a, size_f = 1\<rparr>"
    have r: "q_insert_tail h (Some q) (Some str) (Some a) True = Some (?h1, Some ?q', True)"
      by (simp add: q_insert_tail_def q_allocate_node_ok [OF s] e)
    have "chain ?h1 (head_f ?q') [a]" by simp
    from queue_invI [OF this] have "queue_inv ?h1 ?q'" "q_nodes ?h1 ?q' = [a]"
      by (simp_all add: last_opt_def)
    then show ?thesis using r True e
      by (simp add: q_values_def) (simp add: payload_def)
  next
    case False
    with d obtain t x where t: "tail_f q = Some t" "t = last ?as" and hd: "head_f q = Some x"
      by (cases ?as) (auto simp: last_opt_def)
    have "h t \<noteq> None" using chain_dom [OF d(1), of t] False t by simp
    with a False t have "?h1 t \<noteq> None" by auto
    then obtain h' where h': "store_next ?h1 (Some t) (Some a) = Some h'"
      using store_next_Some by blast
    let ?q' = "q\<lparr>tail_f := Some a, size_f := size_f q + 1\<rparr>"
    have r: "q_insert_tail h (Some q) (Some str) (Some a) True = Some (h', Some ?q', True)"
      using hd t h' by (simp add: q_insert_tail_def q_allocate_node_ok [OF s])
    have c: "chain h' (head_f ?q') (?as @ [a])"
      using chain_snoc [OF d(1) False d(2) a _ , of ?n h'] h' t by simp
    have d': "distinct (?as @ [a])" using a d(2) by simp
    have s': "size_f ?q' = int (length (?as @ [a]))" using d(3) by simp
    have t': "tail_f ?q' = last_opt (?as @ [a])" by (simp add: last_opt_def)
    note i = queue_invI [OF c d' s' t']
    have "map (payload h') ?as = map (payload h) ?as"
    proof (rule map_cong [OF refl])
      fix b assume b: "b \<in> set ?as"
      have "map_option value_f (h' b) = map_option value_f (?h1 b)"
        using h' by (rule store_next_value)
      moreover from b a have "b \<noteq> a" by auto
      ultimately show "payload h' b = payload h b"
        by (intro payload_cong) simp
    qed
    moreover have "payload h' a = c_str str"
      using store_next_value [OF h', of a] by (auto simp: payload_def split: option.splits)
    ultimately have "q_values h' ?q' = q_values h q @ [c_str str]"
      unfolding q_values_def i(2) by simp
    with r i hd show ?thesis
      by (intro exI [of _ h'] exI [of _ ?q']) simp
  qed
qed

lemma c_str_NUL_free: "NUL \<notin> set (c_str s)"
  by (auto simp: c_str_def dest: set_takeWhileD)

lemma c_str_truncated:
  "c_str (take n (c_str s) @ replicate k NUL @ NUL # rest) = take n (c_str s)"
proof -
  have "\<forall>c \<in> set (take n (c_str s)). c \<noteq> NUL"
    using c_str_NUL_free [of s] by (auto dest: in_set_takeD)
  moreover have "takeWhile (\<lambda>c. c \<noteq> NUL) (replicate k NUL @ NUL # rest) = []"
    by (cases k) auto
  ultimately show ?thesis
    unfolding c_str_def [of "_ @ _"] by (simp add: takeWhile_append)
qed

lemma copy_out_None: "copy_out None src bufsize = Some None"
  by (simp add: copy_out_def)

lemma copy_out_Some:
  assumes "buffer_ok (Some buf) bufsize"
  defines "n \<equiv> unat bufsize - 1"
  shows "copy_out (Some buf) src bufsize =
    Some (Some (take n (c_str src) @ replicate (n - strlen src) NUL @ NUL # drop (Suc n) buf))"
proof -
  from assms(1) have nz: "bufsize \<noteq> 0" and le: "unat bufsize \<le> length buf"
    by (simp_all add: buffer_ok_def)
  have u: "unat (bufsize - 1) = n" using nz by (simp add: n_def unat_minus_one)
  have "unat bufsize \<noteq> 0" using nz by (simp add: unat_eq_0)
  with le have lt: "n < length buf" by (simp add: n_def)
  let ?pre = "take n (c_str src) @ replicate (n - strlen src) NUL"
  have l: "length ?pre = n" by (simp add: strlen_def)
  have s: "strncpy buf src n = Some (?pre @ drop n buf)"
    using lt by (simp add: strncpy_def)
  have dn: "drop n buf = buf ! n # drop (Suc n) buf"
    using lt by (simp add: Cons_nth_drop_Suc)
  have "(?pre @ buf ! n # drop (Suc n) buf)[length ?pre := NUL] = ?pre @ NUL # drop (Suc n) buf"
    by (rule list_update_length)
  then have "(?pre @ drop n buf)[n := NUL] = ?pre @ NUL # drop (Suc n) buf"
    unfolding l dn [symmetric] .
  moreover have "n < length (?pre @ drop n buf)" using lt l by simp
  ultimately have "store_char (?pre @ drop n buf) n NUL = Some (?pre @ NUL # drop (Suc n) buf)"
    unfolding store_char_def by simp
  with s show ?thesis by (simp add: copy_out_def u)
qed

lemma copy_out_ok:
  "buffer_ok sp bufsize \<Longrightarrow> \<exists>sp'. copy_out sp src bufsize = Some sp'"
  by (cases sp) (simp_all add: copy_out_None copy_out_Some)

lemma copy_out_zero:
  assumes "length buf < 2 ^ 64 - 1"
  shows "copy_out (Some buf) src 0 = None"
proof -
  have "unat ((0 :: 64 word) - 1) = 2 ^ 64 - 1" by (simp add: unsigned_minus_1_eq_mask mask_eq_exp_minus_1)
  with assms show ?thesis by (simp add: copy_out_def strncpy_def)
qed

lemma q_remove_head_ok:
  assumes inv: "queue_inv h q" and hd: "head_f q = Some a" and buf: "buffer_ok sp bufsize"
  shows "\<exists>q' sp' e. q_remove_head h (Some q) sp bufsize = Some (h(a := None), Some q', sp', True) \<and>
    queue_inv (h(a := None)) q' \<and> q_nodes h q = a # q_nodes (h(a := None)) q' \<and>
    q_values h q = payload h a # q_values (h(a := None)) q' \<and>
    size_f q' = size_f q - 1 \<and> h a = Some e \<and> head_f q' = next_f e \<and>
    (head_f q' = None \<longrightarrow> tail_f q' = None) \<and>
    copy_out sp (value_f e) bufsize = Some sp'"
proof -
  let ?as = "q_nodes h q"
  let ?h' = "h(a := None)"
  note d = queue_invD [OF inv]
  from d(1) hd obtain bs e where as: "?as = a # bs" and e: "h a = Some e"
    and c: "chain h (next_f e) bs"
    by (cases ?as) (auto split: option.splits)
  from d(2) as have a: "a \<notin> set bs" and db: "distinct bs" by simp_all
  from buf obtain sp' where sp': "copy_out sp (value_f e) bufsize = Some sp'"
    using copy_out_ok by blast
  let ?q' = "q\<lparr>head_f := next_f e, tail_f := (if tail_f q = Some a then None else tail_f q),
    size_f := size_f q - 1\<rparr>"
  have r: "q_remove_head h (Some q) sp bufsize = Some (?h', Some ?q', sp', True)"
    using hd e sp' by (simp add: q_remove_head_def load_next_def load_value_def Let_def)
  have c': "chain ?h' (head_f ?q') bs" using c a by (simp add: chain_upd)
  have s': "size_f ?q' = int (length bs)" using d(3) as by simp
  have "bs \<noteq> [] \<Longrightarrow> last bs \<noteq> a" using a last_in_set [of bs] by auto
  then have t': "tail_f ?q' = last_opt bs"
    using d(4) as by (auto simp: last_opt_def)
  note i = queue_invI [OF c' db s' t']
  have "map (payload ?h') bs = map (payload h) bs"
    using a by (intro map_cong [OF refl]) (auto simp: payload_def)
  then have v: "q_values h q = payload h a # q_values ?h' ?q'"
    unfolding q_values_def i(2) as by simp
  have "head_f ?q' = None \<longrightarrow> tail_f ?q' = None"
    using c' t' by (cases bs) (auto simp: last_opt_def)
  with r i v as e sp' s' d(3) show ?thesis
    by (intro exI [of _ ?q'] exI [of _ sp'] exI [of _ e]) simp
qed

section \<open>The example queue\<close>

lemma h_ex_simps:
  "h_ex 1 = Some \<lparr>value_f = ''banana'', next_f = Some 2\<rparr>"
  "h_ex 2 = Some \<lparr>value_f = ''Apple'', next_f = Some 3\<rparr>"
  "h_ex 3 = Some \<lparr>value_f = ''cherry'', next_f = None\<rparr>"
  "h_ex 7 = None"
  "h_ex (Suc 0) = Some \<lparr>value_f = ''banana'', next_f = Some 2\<rparr>"
  by (simp_all add: h_ex_def)

lemma chain_ex: "chain h_ex (Some 1) [1, 2, 3]"
  by (simp add: h_ex_simps)

lemma queue_inv_ex: "queue_inv h_ex q_ex"
  by (rule queue_invI(1) [where as = "[1, 2, 3]"])
     (simp_all add: q_ex_def h_ex_simps last_opt_def)

lemma q_nodes_ex: "q_nodes h_ex q_ex = [1, 2, 3]"
  by (rule queue_invI(2) [where as = "[1, 2, 3]"])
     (simp_all add: q_ex_def h_ex_simps last_opt_def)

lemma q_values_ex: "q_values h_ex q_ex = [''banana'', ''Apple'', ''cherry'']"
  by (simp add: q_values_def q_nodes_ex payload_def h_ex_simps)

lemma queue_inv_ties: "queue_inv h_ties q_ties"
  by (rule queue_invI(1) [where as = "[1, 2, 3, 4]"])
     (simp_all add: q_ties_def h_ties_def last_opt_def)

lemma q_nodes_ties: "q_nodes h_ties q_ties = [1, 2, 3, 4]"
  by (rule queue_invI(2) [where as = "[1, 2, 3, 4]"])
     (simp_all add: q_ties_def h_ties_def last_opt_def)

lemma strlen_kiwi: "strlen ''kiwi'' = 4"
  by (simp add: strlen_def c_str_def NUL_def)

section \<open>What an insertion returns\<close>

lemma q_insert_fail:
  assumes "ins = q_insert_head \<or> ins = q_insert_tail" "fresh h node_malloc"
    "s = None \<or> (\<exists>str. s = Some str \<and> strlen str = 0) \<or> node_malloc = None \<or> \<not> value_malloc"
  shows "ins h (Some q) s node_malloc value_malloc = Some (h, Some q, False)"
  using assms(1) q_allocate_node_fail [OF assms(2) assms(3)]
  by (auto simp: q_insert_head_def q_insert_tail_def)

text \<open>
  C4. \<^verbatim>\<open>q_insert_head\<close> and \<^verbatim>\<open>q_insert_tail\<close>, on a well-formed queue and with a
  \<^verbatim>\<open>malloc\<close> that returns unallocated addresses: on an absent queue they return false
  and change nothing; on a queue they return false exactly when the string is absent
  or of length zero or one of the two allocations fails, and then the heap and the
  queue are as before; when they return true, \<open>size\<close> has grown by exactly 1.
\<close>

theorem insert_fails_exactly_when:
  assumes "ins = q_insert_head \<or> ins = q_insert_tail"
    and "queue_inv h q" and "fresh h node_malloc"
  shows "ins h None s node_malloc value_malloc = Some (h, None, False) \<and>
    (\<exists>h' q' r. ins h (Some q) s node_malloc value_malloc = Some (h', Some q', r) \<and>
       (\<not> r \<longleftrightarrow> s = None \<or> (\<exists>str. s = Some str \<and> strlen str = 0) \<or>
                 node_malloc = None \<or> \<not> value_malloc) \<and>
       (\<not> r \<longrightarrow> h' = h \<and> q' = q) \<and>
       (r \<longrightarrow> size_f q' = size_f q + 1))"
proof
  show "ins h None s node_malloc value_malloc = Some (h, None, False)"
    using assms(1) by (auto simp: q_insert_head_def q_insert_tail_def)
next
  let ?fail = "s = None \<or> (\<exists>str. s = Some str \<and> strlen str = 0) \<or>
    node_malloc = None \<or> \<not> value_malloc"
  show "\<exists>h' q' r. ins h (Some q) s node_malloc value_malloc = Some (h', Some q', r) \<and>
       (\<not> r \<longleftrightarrow> ?fail) \<and> (\<not> r \<longrightarrow> h' = h \<and> q' = q) \<and> (r \<longrightarrow> size_f q' = size_f q + 1)"
  proof (cases ?fail)
    case True
    from q_insert_fail [OF assms(1) assms(3) True, of q] True show ?thesis
      by (intro exI [of _ h] exI [of _ q] exI [of _ False]) simp
  next
    case False
    then obtain str a where s: "s = Some str" "strlen str \<noteq> 0" "node_malloc = Some a"
      "value_malloc" by auto
    from assms(3) s have fr: "h a = None" by (simp add: fresh_def)
    from assms(1) show ?thesis
    proof
      assume i: "ins = q_insert_head"
      from q_insert_head_ok(1) [OF assms(2) fr s(2)] obtain h' q'
        where "q_insert_head h (Some q) (Some str) (Some a) True = Some (h', Some q', True)"
          "size_f q' = size_f q + 1" by simp
      with False show ?thesis
        unfolding i s by (intro exI [of _ h'] exI [of _ q'] exI [of _ True]) simp
    next
      assume i: "ins = q_insert_tail"
      from q_insert_tail_ok [OF assms(2) fr s(2)] obtain h' q'
        where "q_insert_tail h (Some q) (Some str) (Some a) True = Some (h', Some q', True)"
          "size_f q' = size_f q + 1" by blast
      with False show ?thesis
        unfolding i s by (intro exI [of _ h'] exI [of _ q'] exI [of _ True]) simp
    qed
  qed
qed

theorem insert_fails_exactly_when_witness:
  "queue_inv h_ex q_ex \<and> fresh h_ex (Some 7) \<and>
   q_insert_tail h_ex None (Some ''kiwi'') (Some 7) True = Some (h_ex, None, False) \<and>
   (\<exists>h' q'. q_insert_tail h_ex (Some q_ex) (Some ''kiwi'') (Some 7) True = Some (h', Some q', True) \<and>
      size_f q' = 4)"
proof -
  have f: "fresh h_ex (Some 7)" by (simp add: fresh_def h_ex_simps)
  have "q_insert_tail = q_insert_head \<or> q_insert_tail = q_insert_tail" by simp
  from insert_fails_exactly_when [OF this queue_inv_ex f, of "Some ''kiwi''" True]
  show ?thesis using queue_inv_ex f by (auto simp: strlen_kiwi q_ex_def)
qed

section \<open>What a removal returns\<close>

lemma buffer_ok_ex: "buffer_ok (Some ''xxxxxxxxxx'') 4"
  by (simp add: buffer_ok_def)

text \<open>
  C5. \<^verbatim>\<open>q_remove_head\<close>, on a well-formed queue and with a buffer that is absent or has
  its \<open>bufsize\<close> \<open>\<ge> 1\<close> bytes: it returns false exactly when the queue is absent or has
  no head, and then the heap, the queue and the buffer are as before; otherwise it
  returns true, the head node is freed and the node that followed it is the head,
  \<open>size\<close> is smaller by exactly 1, and \<open>tail\<close> is none when no node is left.
\<close>

theorem remove_head_fails_exactly_when:
  assumes "queue_inv h q" and "buffer_ok sp bufsize"
  shows "q_remove_head h None sp bufsize = Some (h, None, sp, False) \<and>
    (\<exists>h' q' sp' r. q_remove_head h (Some q) sp bufsize = Some (h', Some q', sp', r) \<and>
       (\<not> r \<longleftrightarrow> head_f q = None) \<and>
       (\<not> r \<longrightarrow> h' = h \<and> q' = q \<and> sp' = sp) \<and>
       (r \<longrightarrow> (\<exists>a. head_f q = Some a \<and> h' = h(a := None) \<and>
                  load_next h (Some a) = Some (head_f q') \<and>
                  q_nodes h q = a # q_nodes h' q') \<and>
              size_f q' = size_f q - 1 \<and>
              (head_f q' = None \<longrightarrow> tail_f q' = None)))"
proof
  show "q_remove_head h None sp bufsize = Some (h, None, sp, False)"
    by (simp add: q_remove_head_def)
next
  show "\<exists>h' q' sp' r. q_remove_head h (Some q) sp bufsize = Some (h', Some q', sp', r) \<and>
       (\<not> r \<longleftrightarrow> head_f q = None) \<and>
       (\<not> r \<longrightarrow> h' = h \<and> q' = q \<and> sp' = sp) \<and>
       (r \<longrightarrow> (\<exists>a. head_f q = Some a \<and> h' = h(a := None) \<and>
                  load_next h (Some a) = Some (head_f q') \<and>
                  q_nodes h q = a # q_nodes h' q') \<and>
              size_f q' = size_f q - 1 \<and>
              (head_f q' = None \<longrightarrow> tail_f q' = None))"
  proof (cases "head_f q")
    case None
    then have "q_remove_head h (Some q) sp bufsize = Some (h, Some q, sp, False)"
      by (simp add: q_remove_head_def)
    with None show ?thesis
      by (intro exI [of _ h] exI [of _ q] exI [of _ sp] exI [of _ False]) simp
  next
    case (Some a)
    from q_remove_head_ok [OF assms(1) Some assms(2)] obtain q' sp' e where
      r: "q_remove_head h (Some q) sp bufsize = Some (h(a := None), Some q', sp', True)"
      and "queue_inv (h(a := None)) q'"
      and n: "q_nodes h q = a # q_nodes (h(a := None)) q'"
      and "q_values h q = payload h a # q_values (h(a := None)) q'"
      and s: "size_f q' = size_f q - 1"
      and e: "h a = Some e" "head_f q' = next_f e"
      and t: "head_f q' = None \<longrightarrow> tail_f q' = None"
      and "copy_out sp (value_f e) bufsize = Some sp'"
      by (elim exE conjE)
    from e have "load_next h (Some a) = Some (head_f q')" by (simp add: load_next_def)
    with r n s t Some show ?thesis
      by (intro exI [of _ "h(a := None)"] exI [of _ q'] exI [of _ sp'] exI [of _ True]) simp
  qed
qed

theorem remove_head_fails_exactly_when_witness:
  "queue_inv h_ex q_ex \<and> buffer_ok (Some ''xxxxxxxxxx'') 4 \<and>
   (\<exists>q' sp'. q_remove_head h_ex (Some q_ex) (Some ''xxxxxxxxxx'') 4 =
       Some (h_ex(1 := None), Some q', sp', True) \<and>
     q_nodes (h_ex(1 := None)) q' = [2, 3] \<and> head_f q' = Some 2 \<and> size_f q' = 2)"
proof -
  from remove_head_fails_exactly_when [OF queue_inv_ex buffer_ok_ex]
  obtain h' q' sp' r where
    c: "q_remove_head h_ex (Some q_ex) (Some ''xxxxxxxxxx'') 4 = Some (h', Some q', sp', r)"
    and f: "\<not> r \<longleftrightarrow> head_f q_ex = None"
    and "\<not> r \<longrightarrow> h' = h_ex \<and> q' = q_ex \<and> sp' = Some ''xxxxxxxxxx''"
    and t: "r \<longrightarrow> (\<exists>a. head_f q_ex = Some a \<and> h' = h_ex(a := None) \<and>
                  load_next h_ex (Some a) = Some (head_f q') \<and>
                  q_nodes h_ex q_ex = a # q_nodes h' q') \<and>
              size_f q' = size_f q_ex - 1 \<and>
              (head_f q' = None \<longrightarrow> tail_f q' = None)"
    by (elim exE conjE)
  from f have r by (simp add: q_ex_def)
  with t obtain a where a: "head_f q_ex = Some a" "h' = h_ex(a := None)"
    "load_next h_ex (Some a) = Some (head_f q')" "q_nodes h_ex q_ex = a # q_nodes h' q'"
    and s: "size_f q' = size_f q_ex - 1" by blast
  from a(1) have a1: "a = 1" by (simp add: q_ex_def)
  from a(3) have "head_f q' = Some 2" unfolding a1 by (simp add: load_next_def h_ex_simps)
  moreover from a(4) have "q_nodes h' q' = [2, 3]" by (simp add: q_nodes_ex)
  moreover from s have "size_f q' = 2" by (simp add: q_ex_def)
  ultimately show ?thesis
    using queue_inv_ex buffer_ok_ex c \<open>r\<close> a(2) unfolding a1 by simp
qed

text \<open>
  C9. \<^verbatim>\<open>q_insert_head\<close> of a string of length at least 1, then \<^verbatim>\<open>q_remove_head\<close> with a
  buffer of \<open>cap \<ge> 1\<close> bytes: both return true, whatever the length of the string, and
  the buffer then begins with the first \<open>cap - 1\<close> bytes of the string (all of it when
  it is shorter), zero bytes up to the index \<open>cap - 1\<close>, and a zero byte there: read
  as a string, the string cut to at most \<open>cap - 1\<close> bytes. This holds for every queue,
  the empty one included.
\<close>

theorem insert_head_remove_head_copies:
  assumes "strlen s \<noteq> 0" and "buffer_ok (Some buf) cap"
  shows "\<exists>h1 q1 h2 q2 buf'.
    q_insert_head h (Some q) (Some s) (Some a) True = Some (h1, Some q1, True) \<and>
    q_remove_head h1 (Some q1) (Some buf) cap = Some (h2, Some q2, Some buf', True) \<and>
    buf' = take (unat cap - 1) (c_str s) @ replicate (unat cap - 1 - strlen s) NUL @
           NUL # drop (unat cap) buf \<and>
    c_str buf' = take (unat cap - 1) (c_str s)"
proof -
  let ?n = "unat cap - 1"
  let ?h1 = "h(a \<mapsto> \<lparr>value_f = c_str s, next_f = head_f q\<rparr>)"
  let ?q0 = "q\<lparr>head_f := Some a\<rparr>"
  let ?q1 = "(if tail_f ?q0 = None then ?q0\<lparr>tail_f := Some a\<rparr> else ?q0)
    \<lparr>size_f := size_f q + 1\<rparr>"
  let ?buf' = "take ?n (c_str s) @ replicate (?n - strlen s) NUL @ NUL # drop (Suc ?n) buf"
  have i: "q_insert_head h (Some q) (Some s) (Some a) True = Some (?h1, Some ?q1, True)"
    by (simp add: q_insert_head_def q_allocate_node_ok [OF assms(1)] store_next_def Let_def)
  have cc: "c_str (c_str s) = c_str s"
    using c_str_NUL_free [of s] unfolding c_str_def [of "c_str s"]
    by (intro takeWhile_eq_all_conv [THEN iffD2]) auto
  then have sl: "strlen (c_str s) = strlen s" by (simp add: strlen_def)
  have c: "copy_out (Some buf) (c_str s) cap = Some (Some ?buf')"
    using copy_out_Some [OF assms(2), of "c_str s"] by (simp add: cc sl)
  have "\<exists>q2. q_remove_head ?h1 (Some ?q1) (Some buf) cap =
      Some (?h1(a := None), Some q2, Some ?buf', True)"
    by (simp add: q_remove_head_def load_next_def load_value_def Let_def c)
  then obtain q2 where r: "q_remove_head ?h1 (Some ?q1) (Some buf) cap =
      Some (?h1(a := None), Some q2, Some ?buf', True)" ..
  from assms(2) have "unat cap \<noteq> 0" by (simp add: buffer_ok_def unat_eq_0)
  then have u: "Suc ?n = unat cap" by simp
  show ?thesis
    using i r c_str_truncated [of ?n s "?n - strlen s" "drop (Suc ?n) buf"] unfolding u
    by blast
qed

theorem insert_head_remove_head_copies_witness:
  "strlen ''kiwi'' \<noteq> 0 \<and> buffer_ok (Some ''xxxxxxxxxx'') 4 \<and>
   (\<exists>h1 q1 h2 q2 buf'.
      q_insert_head Map.empty (Some \<lparr>head_f = None, tail_f = None, size_f = 0\<rparr>) (Some ''kiwi'')
        (Some 7) True = Some (h1, Some q1, True) \<and>
      q_remove_head h1 (Some q1) (Some ''xxxxxxxxxx'') 4 = Some (h2, Some q2, Some buf', True) \<and>
      buf' = ''kiw'' @ NUL # ''xxxxxx'' \<and> c_str buf' = ''kiw'')"
proof -
  have s: "strlen ''kiwi'' \<noteq> 0" by (simp add: strlen_kiwi)
  have c: "c_str ''kiwi'' = ''kiwi''" by (simp add: c_str_def NUL_def)
  from insert_head_remove_head_copies [OF s buffer_ok_ex,
      of Map.empty "\<lparr>head_f = None, tail_f = None, size_f = 0\<rparr>" 7]
  show ?thesis using s buffer_ok_ex by (simp add: c strlen_kiwi)
qed

text \<open>
  C10. With a buffer and \<open>bufsize = 0\<close>, \<^verbatim>\<open>bufsize - 1\<close> is \<open>2 ^ 64 - 1\<close>: \<^verbatim>\<open>strncpy\<close> is
  asked to write that many bytes and the terminator goes to that index, both past the
  end of any buffer that is shorter, so the copy and the call have no defined result.
  A copy that has a result was given a \<open>bufsize\<close> of at least 1.
\<close>

theorem remove_head_bufsize_zero:
  assumes "length buf < 2 ^ 64 - 1" and "head_f q \<noteq> None"
  shows "unat ((0 :: 64 word) - 1) = 2 ^ 64 - 1 \<and>
    strncpy buf src (unat ((0 :: 64 word) - 1)) = None \<and>
    store_char buf (unat ((0 :: 64 word) - 1)) NUL = None \<and>
    copy_out (Some buf) src 0 = None \<and>
    q_remove_head h (Some q) (Some buf) 0 = None \<and>
    (copy_out (Some buf) src bufsize \<noteq> None \<longrightarrow> 1 \<le> bufsize)"
proof -
  have u: "unat (- 1 :: 64 word) = 2 ^ 64 - 1"
    by (simp add: unsigned_minus_1_eq_mask mask_eq_exp_minus_1)
  have z: "copy_out (Some buf) src' 0 = None" for src'
    using assms(1) by (rule copy_out_zero)
  have "q_remove_head h (Some q) (Some buf) 0 = None"
    using assms(2) z by (auto simp: q_remove_head_def Let_def split: bind_splits)
  moreover have "copy_out (Some buf) src bufsize \<noteq> None \<longrightarrow> 1 \<le> bufsize"
  proof (cases "bufsize = 0")
    case True
    with z [of src] show ?thesis by simp
  next
    case False
    then have "unat bufsize \<noteq> 0" by (simp add: unat_eq_0)
    then have "unat (1 :: 64 word) \<le> unat bufsize" by simp
    then show ?thesis by (simp add: word_le_nat_alt)
  qed
  ultimately show ?thesis
    using assms(1) z [of src] by (simp add: u strncpy_def store_char_def)
qed

theorem remove_head_bufsize_zero_witness:
  "length ''xxxxxxxxxx'' < 2 ^ 64 - 1 \<and> head_f q_ex \<noteq> None \<and>
   copy_out (Some ''xxxxxxxxxx'') ''banana'' 0 = None \<and>
   q_remove_head h_ex (Some q_ex) (Some ''xxxxxxxxxx'') 0 = None"
proof -
  have l: "length ''xxxxxxxxxx'' < 2 ^ 64 - 1" by simp
  have n: "head_f q_ex \<noteq> None" by (simp add: q_ex_def)
  from remove_head_bufsize_zero [OF l n, of "''banana''" h_ex] show ?thesis
    using l n by simp
qed

section \<open>Reversal\<close>

lemma load_next_Some: "h a = Some e \<Longrightarrow> load_next h (Some a) = Some (next_f e)"
  by (simp add: load_next_def)

lemma store_next_eq:
  "h a = Some e \<Longrightarrow> store_next h (Some a) v = Some (h(a \<mapsto> e\<lparr>next_f := v\<rparr>))"
  by (simp add: store_next_def)

text \<open>
  The loop of \<^verbatim>\<open>q_reverse\<close>: with the nodes \<open>as\<close> still to visit and the reversed part
  \<open>ps\<close> behind \<^verbatim>\<open>prev\<close>, it ends with the chain \<open>rev as @ ps\<close>; it writes \<^verbatim>\<open>next\<close> fields of
  the nodes \<open>as\<close> only.
\<close>

lemma reverse_loop_chain:
  assumes "chain h cur as" "chain h prev ps" "distinct (as @ ps)"
  shows "\<exists>h'. reverse_loop h prev cur = Some (h', last_opt (rev ps @ as)) \<and>
    chain h' (last_opt (rev ps @ as)) (rev as @ ps) \<and>
    (\<forall>b. b \<notin> set as \<longrightarrow> h' b = h b) \<and>
    (\<forall>b. map_option value_f (h' b) = map_option value_f (h b))"
  using assms
proof (induction as arbitrary: h cur prev ps)
  case Nil
  then have "cur = None" by simp
  moreover from Nil(2) have "prev = last_opt (rev ps)"
    by (cases ps) (auto simp: last_opt_def)
  ultimately show ?case using Nil(2)
    by (subst reverse_loop.simps) simp
next
  case (Cons a as)
  from Cons.prems(1) obtain e where cur: "cur = Some a" and e: "h a = Some e"
    and c: "chain h (next_f e) as" by (auto split: option.splits)
  let ?h1 = "h(a \<mapsto> e\<lparr>next_f := prev\<rparr>)"
  from Cons.prems(3) have a: "a \<notin> set as" "a \<notin> set ps" by auto
  have c1: "chain ?h1 (next_f e) as" using c a(1) by (simp add: chain_upd)
  have "chain ?h1 prev ps" using Cons.prems(2) a(2) by (simp add: chain_upd)
  then have c2: "chain ?h1 (Some a) (a # ps)" by simp
  have d: "distinct (as @ a # ps)" using Cons.prems(3) by auto
  from Cons.IH [OF c1 c2 d] obtain h' where
    r: "reverse_loop ?h1 (Some a) (next_f e) = Some (h', last_opt (rev (a # ps) @ as))"
    and ch: "chain h' (last_opt (rev (a # ps) @ as)) (rev as @ a # ps)"
    and fr: "\<forall>b. b \<notin> set as \<longrightarrow> h' b = ?h1 b"
    and va: "\<forall>b. map_option value_f (h' b) = map_option value_f (?h1 b)"
    by (elim exE conjE)
  have "reverse_loop h prev cur = Some (h', last_opt (rev ps @ a # as))"
    using r e by (subst reverse_loop.simps) (simp add: cur load_next_Some store_next_eq)
  moreover have "chain h' (last_opt (rev ps @ a # as)) (rev (a # as) @ ps)"
    using ch by simp
  moreover have "\<forall>b. b \<notin> set (a # as) \<longrightarrow> h' b = h b"
    using fr by simp
  moreover have "\<forall>b. map_option value_f (h' b) = map_option value_f (h b)"
    using va e by simp
  ultimately show ?case by blast
qed

lemma chain_hd: "chain h p as \<Longrightarrow> p = (case as of [] \<Rightarrow> None | a # _ \<Rightarrow> Some a)"
  by (cases as) auto

lemma chain_next_eq:
  "chain h1 p as \<Longrightarrow> chain h2 p' as \<Longrightarrow> b \<in> set as \<Longrightarrow>
   map_option next_f (h1 b) = map_option next_f (h2 b)"
proof (induction as arbitrary: p p')
  case Nil
  then show ?case by simp
next
  case (Cons a as)
  from Cons.prems(1) obtain e1 where e1: "h1 a = Some e1" "chain h1 (next_f e1) as"
    by (auto split: option.splits)
  from Cons.prems(2) obtain e2 where e2: "h2 a = Some e2" "chain h2 (next_f e2) as"
    by (auto split: option.splits)
  show ?case
  proof (cases "b = a")
    case True
    from chain_hd [OF e1(2)] chain_hd [OF e2(2)] have "next_f e1 = next_f e2" by simp
    with True e1 e2 show ?thesis by simp
  next
    case False
    with Cons.prems(3) have "b \<in> set as" by simp
    from Cons.IH [OF e1(2) e2(2) this] show ?thesis .
  qed
qed

text \<open>Two heaps that hold the same chain and the same payloads, and agree elsewhere, are equal.\<close>

lemma heap_eqI:
  assumes "chain h1 p as" "chain h2 p' as"
    and v: "\<And>b. map_option value_f (h1 b) = map_option value_f (h2 b)"
    and f: "\<And>b. b \<notin> set as \<Longrightarrow> h1 b = h2 b"
  shows "h1 = h2"
proof
  fix b
  show "h1 b = h2 b"
  proof (cases "b \<in> set as")
    case False
    then show ?thesis by (rule f)
  next
    case True
    from chain_next_eq [OF assms(1) assms(2) True] v [of b] show ?thesis
      by (cases "h1 b"; cases "h2 b") auto
  qed
qed

lemma last_opt_rev: "last_opt (rev as) = (case as of [] \<Rightarrow> None | a # _ \<Rightarrow> Some a)"
  by (cases as) (auto simp: last_opt_def)

lemma q_reverse_ok:
  assumes inv: "queue_inv h q" and hd: "head_f q \<noteq> None"
  shows "\<exists>h'. q_reverse h (Some q) =
      Some (h', Some (q\<lparr>tail_f := head_f q, head_f := tail_f q\<rparr>)) \<and>
    queue_inv h' (q\<lparr>tail_f := head_f q, head_f := tail_f q\<rparr>) \<and>
    q_nodes h' (q\<lparr>tail_f := head_f q, head_f := tail_f q\<rparr>) = rev (q_nodes h q) \<and>
    (\<forall>b. b \<notin> set (q_nodes h q) \<longrightarrow> h' b = h b) \<and>
    (\<forall>b. map_option value_f (h' b) = map_option value_f (h b))"
proof -
  let ?as = "q_nodes h q"
  let ?q' = "q\<lparr>tail_f := head_f q, head_f := tail_f q\<rparr>"
  note d = queue_invD [OF inv]
  have n: "chain h None []" by simp
  from reverse_loop_chain [OF d(1) n] d(2) obtain h' where
    r: "reverse_loop h None (head_f q) = Some (h', last_opt ?as)"
    and c: "chain h' (last_opt ?as) (rev ?as)"
    and f: "\<forall>b. b \<notin> set ?as \<longrightarrow> h' b = h b"
    and v: "\<forall>b. map_option value_f (h' b) = map_option value_f (h b)"
    by auto
  from hd obtain x where x: "head_f q = Some x" by auto
  have "q_reverse h (Some q) = Some (h', Some ?q')"
    using r d(4) by (simp add: q_reverse_def x)
  moreover have c': "chain h' (head_f ?q') (rev ?as)" using c d(4) by simp
  have t': "tail_f ?q' = last_opt (rev ?as)"
    using chain_hd [OF d(1)] by (simp add: last_opt_rev)
  have "distinct (rev ?as)" "size_f ?q' = int (length (rev ?as))"
    using d(2) d(3) by simp_all
  note queue_invI [OF c' this t']
  ultimately show ?thesis using f v by blast
qed

lemma payload_eq:
  "(\<forall>b. map_option value_f (h' b) = map_option value_f (h b)) \<Longrightarrow> payload h' = payload h"
  by (rule ext) (rule payload_cong, simp)

text \<open>
  C6. \<^verbatim>\<open>q_reverse\<close> does nothing on an absent queue and on a queue without head. On a
  well-formed queue with a head it returns, and then the nodes are traversed in the
  reverse of the order before, and so are the payloads; \<open>head\<close> is the former \<open>tail\<close> and
  \<open>tail\<close> the former \<open>head\<close>; \<open>size\<close> is as before; the heap holds the same addresses,
  each with the payload it had (nothing is allocated or freed, no payload is written).
\<close>

theorem reverse_reverses:
  assumes "queue_inv h q"
  shows "q_reverse h None = Some (h, None) \<and>
    (head_f q = None \<longrightarrow> q_reverse h (Some q) = Some (h, Some q)) \<and>
    (head_f q \<noteq> None \<longrightarrow>
      (\<exists>h' q'. q_reverse h (Some q) = Some (h', Some q') \<and>
         q_nodes h' q' = rev (q_nodes h q) \<and>
         q_values h' q' = rev (q_values h q) \<and>
         head_f q' = tail_f q \<and> tail_f q' = head_f q \<and> size_f q' = size_f q \<and>
         (\<forall>b. map_option value_f (h' b) = map_option value_f (h b))))"
proof (intro conjI impI)
  show "q_reverse h None = Some (h, None)" by (simp add: q_reverse_def)
next
  assume "head_f q = None"
  then show "q_reverse h (Some q) = Some (h, Some q)" by (simp add: q_reverse_def)
next
  assume hd: "head_f q \<noteq> None"
  let ?q' = "q\<lparr>tail_f := head_f q, head_f := tail_f q\<rparr>"
  from q_reverse_ok [OF assms hd] obtain h' where
    r: "q_reverse h (Some q) = Some (h', Some ?q')"
    and n: "q_nodes h' ?q' = rev (q_nodes h q)"
    and v: "\<forall>b. map_option value_f (h' b) = map_option value_f (h b)"
    by blast
  have "q_values h' ?q' = rev (q_values h q)"
    unfolding q_values_def n payload_eq [OF v] by (simp add: rev_map)
  with r n v show "\<exists>h' q'. q_reverse h (Some q) = Some (h', Some q') \<and>
         q_nodes h' q' = rev (q_nodes h q) \<and>
         q_values h' q' = rev (q_values h q) \<and>
         head_f q' = tail_f q \<and> tail_f q' = head_f q \<and> size_f q' = size_f q \<and>
         (\<forall>b. map_option value_f (h' b) = map_option value_f (h b))"
    by (intro exI [of _ h'] exI [of _ ?q']) simp
qed

theorem reverse_reverses_witness:
  "queue_inv h_ex q_ex \<and>
   (\<exists>h' q'. q_reverse h_ex (Some q_ex) = Some (h', Some q') \<and>
      q_nodes h' q' = [3, 2, 1] \<and> q_values h' q' = [''cherry'', ''Apple'', ''banana''] \<and>
      head_f q' = Some 3 \<and> tail_f q' = Some 1 \<and> size_f q' = 3)"
proof -
  have "head_f q_ex \<noteq> None" by (simp add: q_ex_def)
  with reverse_reverses [OF queue_inv_ex] obtain h' q' where
    "q_reverse h_ex (Some q_ex) = Some (h', Some q')"
    "q_nodes h' q' = rev (q_nodes h_ex q_ex)" "q_values h' q' = rev (q_values h_ex q_ex)"
    "head_f q' = tail_f q_ex" "tail_f q' = head_f q_ex" "size_f q' = size_f q_ex"
    by blast
  then show ?thesis
    using queue_inv_ex by (simp add: q_nodes_ex q_values_ex) (simp add: q_ex_def)
qed

text \<open>
  C7. On a well-formed queue with a head, \<^verbatim>\<open>q_reverse\<close> called twice gives back the
  heap and the queue it started from: the same links, so the same traversal order, and
  the same \<open>head\<close>, \<open>tail\<close> and \<open>size\<close>.
\<close>

theorem reverse_twice:
  assumes "queue_inv h q" and "head_f q \<noteq> None"
  shows "\<exists>h1 q1. q_reverse h (Some q) = Some (h1, Some q1) \<and>
    q_reverse h1 (Some q1) = Some (h, Some q)"
proof -
  let ?as = "q_nodes h q"
  let ?q1 = "q\<lparr>tail_f := head_f q, head_f := tail_f q\<rparr>"
  from q_reverse_ok [OF assms] obtain h1 where
    r1: "q_reverse h (Some q) = Some (h1, Some ?q1)"
    and i1: "queue_inv h1 ?q1"
    and n1: "q_nodes h1 ?q1 = rev ?as"
    and f1: "\<forall>b. b \<notin> set ?as \<longrightarrow> h1 b = h b"
    and v1: "\<forall>b. map_option value_f (h1 b) = map_option value_f (h b)"
    by blast
  note d = queue_invD [OF assms(1)]
  from d(1) d(4) assms(2) have t: "head_f ?q1 \<noteq> None"
    by (cases ?as) (auto simp: last_opt_def)
  let ?q2 = "?q1\<lparr>tail_f := head_f ?q1, head_f := tail_f ?q1\<rparr>"
  from q_reverse_ok [OF i1 t] obtain h2 where
    r2: "q_reverse h1 (Some ?q1) = Some (h2, Some ?q2)"
    and i2: "queue_inv h2 ?q2"
    and n2: "q_nodes h2 ?q2 = rev (q_nodes h1 ?q1)"
    and f2: "\<forall>b. b \<notin> set (q_nodes h1 ?q1) \<longrightarrow> h2 b = h1 b"
    and v2: "\<forall>b. map_option value_f (h2 b) = map_option value_f (h1 b)"
    by blast
  have q2: "?q2 = q" by simp
  have c2: "chain h2 (head_f q) ?as"
    using queue_invD(1) [OF i2] unfolding n2 n1 by simp
  have "h2 = h"
    using c2 d(1)
  proof (rule heap_eqI)
    fix b
    show "map_option value_f (h2 b) = map_option value_f (h b)" using v1 v2 by simp
    show "b \<notin> set ?as \<Longrightarrow> h2 b = h b" using f1 f2 n1 by simp
  qed
  with r1 r2 q2 show ?thesis by simp
qed

theorem reverse_twice_witness:
  "queue_inv h_ex q_ex \<and> head_f q_ex \<noteq> None \<and>
   (\<exists>h1 q1. q_reverse h_ex (Some q_ex) = Some (h1, Some q1) \<and>
      q_reverse h1 (Some q1) = Some (h_ex, Some q_ex))"
proof -
  have n: "head_f q_ex \<noteq> None" by (simp add: q_ex_def)
  from reverse_twice [OF queue_inv_ex n] show ?thesis
    using queue_inv_ex n by simp
qed

section \<open>Sorting\<close>

subsection \<open>The sort on lists\<close>

lemma mset_merge_list: "mset (merge_list k xs ys) = mset xs + mset ys"
  by (induction k xs ys rule: merge_list.induct) auto

lemma set_merge_list: "set (merge_list k xs ys) = set xs \<union> set ys"
  by (induction k xs ys rule: merge_list.induct) auto

lemma sorted_merge_list:
  "sorted_wrt (\<lambda>a b. case_le (k a) (k b)) xs \<Longrightarrow> sorted_wrt (\<lambda>a b. case_le (k a) (k b)) ys \<Longrightarrow>
   sorted_wrt (\<lambda>a b. case_le (k a) (k b)) (merge_list k xs ys)"
proof (induction k xs ys rule: merge_list.induct)
  case (3 k x xs y ys)
  show ?case
  proof (cases "strcasecmp (k x) (k y) < 1")
    case True
    then have xy: "case_le (k x) (k y)" by (simp add: case_le_def)
    have "\<forall>b \<in> set (y # ys). case_le (k x) (k b)"
      using xy "3.prems"(2) by (auto intro: case_le_trans)
    with True 3 show ?thesis by (auto simp: set_merge_list)
  next
    case False
    then have yx: "case_le (k y) (k x)" using case_le_total [of "k x" "k y"] by (simp add: case_le_def)
    have "\<forall>b \<in> set (x # xs). case_le (k y) (k b)"
      using yx "3.prems"(1) by (auto intro: case_le_trans)
    with False 3 show ?thesis by (auto simp: set_merge_list)
  qed
qed simp_all

text \<open>Ties go to the left list, so the nodes of one class of ties keep their order.\<close>

lemma filter_merge_list:
  "sorted_wrt (\<lambda>a b. case_le (k a) (k b)) xs \<Longrightarrow>
   filter (\<lambda>a. case_eq (k a) v) (merge_list k xs ys) =
   filter (\<lambda>a. case_eq (k a) v) xs @ filter (\<lambda>a. case_eq (k a) v) ys"
proof (induction k xs ys rule: merge_list.induct)
  case (3 k x xs y ys)
  show ?case
  proof (cases "strcasecmp (k x) (k y) < 1")
    case True
    with 3 show ?thesis by simp
  next
    case False
    then have nxy: "\<not> case_le (k x) (k y)" by (simp add: case_le_def)
    have no: "filter (\<lambda>a. case_eq (k a) v) (x # xs) = []" if yv: "case_eq (k y) v"
    proof -
      have "\<not> case_eq (k a) v" if a: "a \<in> set (x # xs)" for a
      proof
        assume av: "case_eq (k a) v"
        have xa: "case_le (k x) (k a)"
          using a "3.prems" case_le_total [of "k x" "k x"] by auto
        from av yv have "case_le (k a) (k y)"
          by (auto simp: case_eq_iff intro: case_le_trans)
        with xa have "case_le (k x) (k y)" by (rule case_le_trans)
        with nxy show False by simp
      qed
      then show ?thesis by (simp only: filter_empty_conv) blast
    qed
    from False 3 have "filter (\<lambda>a. case_eq (k a) v) (merge_list k (x # xs) (y # ys)) =
      filter (\<lambda>a. case_eq (k a) v) [y] @ filter (\<lambda>a. case_eq (k a) v) (x # xs) @
      filter (\<lambda>a. case_eq (k a) v) ys"
      by simp
    also have "\<dots> = filter (\<lambda>a. case_eq (k a) v) (x # xs) @ filter (\<lambda>a. case_eq (k a) v) (y # ys)"
      using no by (cases "case_eq (k y) v") simp_all
    finally show ?thesis .
  qed
qed simp_all

lemma merge_list_sorted_append:
  "sorted_wrt (\<lambda>a b. case_le (k a) (k b)) (xs @ ys) \<Longrightarrow> merge_list k xs ys = xs @ ys"
proof (induction k xs ys rule: merge_list.induct)
  case (3 k x xs y ys)
  then have "case_le (k x) (k y)" by (simp add: sorted_wrt_append)
  with 3 show ?case by (simp add: case_le_def)
qed simp_all

lemma merge_sort_list_props:
  "mset (merge_sort_list k as) = mset as \<and>
   sorted_wrt (\<lambda>a b. case_le (k a) (k b)) (merge_sort_list k as) \<and>
   (\<forall>v. filter (\<lambda>a. case_eq (k a) v) (merge_sort_list k as) = filter (\<lambda>a. case_eq (k a) v) as)"
proof (induction k as rule: merge_sort_list.induct)
  case (1 k as)
  show ?case
  proof (cases "length as \<le> 1")
    case True
    then have "merge_sort_list k as = as" by (simp add: merge_sort_list.simps)
    moreover from True have "sorted_wrt (\<lambda>a b. case_le (k a) (k b)) as"
      by (cases as) auto
    ultimately show ?thesis by simp
  next
    case False
    let ?m = "(length as + 1) div 2"
    let ?l = "merge_sort_list k (take ?m as)"
    let ?r = "merge_sort_list k (drop ?m as)"
    from False have ms: "merge_sort_list k as = merge_list k ?l ?r"
      by (subst merge_sort_list.simps) simp
    note l = "1.IH"(1) [OF False] and r = "1.IH"(2) [OF False]
    have "mset (merge_sort_list k as) = mset (take ?m as) + mset (drop ?m as)"
      using l r by (simp add: ms mset_merge_list)
    also have "\<dots> = mset as"
      by (simp add: union_code)
    finally have m: "mset (merge_sort_list k as) = mset as" .
    have s: "sorted_wrt (\<lambda>a b. case_le (k a) (k b)) (merge_sort_list k as)"
      using l r by (simp add: ms sorted_merge_list)
    have "filter (\<lambda>a. case_eq (k a) v) (merge_sort_list k as) = filter (\<lambda>a. case_eq (k a) v) as" for v
    proof -
      have "filter (\<lambda>a. case_eq (k a) v) (merge_sort_list k as) =
        filter (\<lambda>a. case_eq (k a) v) (take ?m as) @ filter (\<lambda>a. case_eq (k a) v) (drop ?m as)"
        using l r by (simp add: ms filter_merge_list)
      also have "\<dots> = filter (\<lambda>a. case_eq (k a) v) (take ?m as @ drop ?m as)"
        by (simp only: filter_append)
      finally show ?thesis by simp
    qed
    with m s show ?thesis by blast
  qed
qed

lemma merge_sort_list_sorted:
  "sorted_wrt (\<lambda>a b. case_le (k a) (k b)) as \<Longrightarrow> merge_sort_list k as = as"
proof (induction k as rule: merge_sort_list.induct)
  case (1 k as)
  show ?case
  proof (cases "length as \<le> 1")
    case True
    then show ?thesis by (simp add: merge_sort_list.simps)
  next
    case False
    let ?m = "(length as + 1) div 2"
    have s: "sorted_wrt (\<lambda>a b. case_le (k a) (k b)) (take ?m as @ drop ?m as)"
      using "1.prems" by simp
    then have "sorted_wrt (\<lambda>a b. case_le (k a) (k b)) (take ?m as)"
      "sorted_wrt (\<lambda>a b. case_le (k a) (k b)) (drop ?m as)"
      unfolding sorted_wrt_append by simp_all
    with "1.IH" [OF False] have "merge_sort_list k (take ?m as) = take ?m as"
      "merge_sort_list k (drop ?m as) = drop ?m as" by simp_all
    moreover have "merge_list k (take ?m as) (drop ?m as) = take ?m as @ drop ?m as"
      using s by (rule merge_list_sorted_append)
    ultimately show ?thesis
      using False by (subst merge_sort_list.simps) simp
  qed
qed

subsection \<open>The loops over the heap\<close>

lemma chain_Cons:
  "chain h p (a # as) \<Longrightarrow> \<exists>e. p = Some a \<and> h a = Some e \<and> chain h (next_f e) as"
  by (auto split: option.splits)

lemma tail_loop_chain: "chain h p as \<Longrightarrow> tail_loop h p = Some (last_opt as)"
proof (induction as arbitrary: p)
  case Nil
  then show ?case by (subst tail_loop.simps) (simp add: last_opt_def)
next
  case (Cons a as)
  from chain_Cons [OF Cons.prems] obtain e where e: "p = Some a" "h a = Some e"
    and c: "chain h (next_f e) as" by blast
  show ?case
  proof (cases as)
    case Nil
    with c have "next_f e = None" by simp
    with e Nil show ?thesis
      by (subst tail_loop.simps) (simp add: load_next_Some last_opt_def)
  next
    case (Cons b bs)
    with c have n: "next_f e = Some b" by simp
    from Cons.IH [OF c] have "tail_loop h (next_f e) = Some (last_opt as)" .
    with e n Cons show ?thesis
      by (subst tail_loop.simps) (simp add: load_next_Some last_opt_def)
  qed
qed

lemma split_loop_chain:
  "chain h fast fs \<Longrightarrow> chain h slow ss \<Longrightarrow> length fs < length ss \<Longrightarrow>
   split_loop h fast slow = Some (Some (ss ! (length fs div 2)))"
proof (induction fs arbitrary: fast slow ss rule: induct_list012)
  case 1
  then obtain s ss' where "ss = s # ss'" by (cases ss) auto
  with 1 show ?case by (subst split_loop.simps) simp
next
  case (2 f)
  then obtain s ss' where ss: "ss = s # ss'" by (cases ss) auto
  from chain_Cons [OF "2.prems"(1)] obtain e where "fast = Some f" "h f = Some e" "next_f e = None"
    by auto
  with 2 ss show ?case by (subst split_loop.simps) (simp add: load_next_Some)
next
  case (3 f g fs)
  from chain_Cons [OF "3.prems"(1)] obtain e where f: "fast = Some f" "h f = Some e"
    and c1: "chain h (next_f e) (g # fs)" by blast
  from chain_Cons [OF c1] obtain e' where g: "next_f e = Some g" "h g = Some e'"
    and c2: "chain h (next_f e') fs" by blast
  from "3.prems"(3) obtain s ss' where ss: "ss = s # ss'" by (cases ss) auto
  from chain_Cons [OF "3.prems"(2) [unfolded ss]] obtain se where s: "slow = Some s" "h s = Some se"
    and c3: "chain h (next_f se) ss'" by blast
  from "3.prems"(3) ss have l: "length fs < length ss'" by simp
  from "3.IH"(1) [OF c2 c3 l]
  have "split_loop h (next_f e') (next_f se) = Some (Some (ss' ! (length fs div 2)))" .
  with f g s ss show ?case
    by (subst split_loop.simps) (simp add: load_next_Some)
qed

lemma load_value_Some: "h a = Some e \<Longrightarrow> load_value h (Some a) = Some (value_f e)"
  by (simp add: load_value_def)

lemma payload_Some: "h a = Some e \<Longrightarrow> payload h a = value_f e"
  by (simp add: payload_def)

lemma chain_ConsI: "h a = Some e \<Longrightarrow> chain h (next_f e) as \<Longrightarrow> chain h (Some a) (a # as)"
  by simp

text \<open>
  The loop of \<^verbatim>\<open>merge\<close> together with the two assignments that follow it: \<^verbatim>\<open>cur\<close> is
  the last node of the result so far, outside the two chains still to merge, of which
  at least one has a node. Afterwards \<^verbatim>\<open>cur\<close> is followed by their merge.
\<close>

lemma merge_loop_chain:
  assumes "chain h left ls" "chain h right rs" "h c \<noteq> None" "c \<notin> set ls \<union> set rs"
    "distinct ls" "distinct rs" "set ls \<inter> set rs = {}" "ls \<noteq> [] \<or> rs \<noteq> []"
    "payload h = k"
  shows "\<exists>h3. (merge_loop h (Some c) left right \<bind> (\<lambda>(h1, cur, left2, right2).
        (if left2 \<noteq> None then store_next h1 cur left2 else Some h1) \<bind> (\<lambda>h2.
        (if right2 \<noteq> None then store_next h2 cur right2 else Some h2) \<bind> (\<lambda>h3.
        Some (h3, res))))) = Some (h3, res) \<and>
    chain h3 (Some c) (c # merge_list k ls rs) \<and>
    (\<forall>b. b \<noteq> c \<and> b \<notin> set ls \<union> set rs \<longrightarrow> h3 b = h b) \<and>
    (\<forall>b. map_option value_f (h3 b) = map_option value_f (h b))"
  using assms
proof (induction k ls rs arbitrary: h c left right rule: merge_list.induct)
  case (1 k ys)
  then have l: "left = None" and ys: "ys \<noteq> []" by simp_all
  from ys "1.prems"(2) obtain y where r: "right = Some y" by (cases ys) auto
  from "1.prems"(3) obtain ce where ce: "h c = Some ce" by auto
  let ?h3 = "h(c \<mapsto> ce\<lparr>next_f := right\<rparr>)"
  have "chain ?h3 right ys" using "1.prems"(2,4) by (simp add: chain_upd)
  then have "chain ?h3 (Some c) (c # merge_list k [] ys)" by simp
  moreover have "\<forall>b. map_option value_f (?h3 b) = map_option value_f (h b)"
    using ce by simp
  ultimately show ?case
    using l r ce by (subst merge_loop.simps) (simp add: store_next_eq)
next
  case (2 k x xs)
  then have r: "right = None" by simp
  from "2.prems"(1) have l: "left = Some x" by simp
  from "2.prems"(3) obtain ce where ce: "h c = Some ce" by auto
  let ?h3 = "h(c \<mapsto> ce\<lparr>next_f := left\<rparr>)"
  have c0: "chain ?h3 left (x # xs)" using "2.prems"(1,4) by (subst chain_upd) auto
  have "chain ?h3 (Some c) (c # x # xs)"
  proof (rule chain_ConsI)
    show "?h3 c = Some (ce\<lparr>next_f := left\<rparr>)" by simp
    have n: "next_f (ce\<lparr>next_f := left\<rparr>) = left" by simp
    show "chain ?h3 (next_f (ce\<lparr>next_f := left\<rparr>)) (x # xs)"
      unfolding n by (rule c0)
  qed
  then have "chain ?h3 (Some c) (c # merge_list k (x # xs) [])"
    by (simp only: merge_list.simps)
  moreover have "\<forall>b. map_option value_f (?h3 b) = map_option value_f (h b)"
    using ce by simp
  ultimately show ?case
    using l r ce by (subst merge_loop.simps) (simp add: store_next_eq)
next
  case (3 k x xs y ys)
  let ?fin = "\<lambda>(h1, cur, left2, right2).
        (if left2 \<noteq> None then store_next h1 cur left2 else Some h1) \<bind> (\<lambda>h2.
        (if right2 \<noteq> None then store_next h2 cur right2 else Some h2) \<bind> (\<lambda>h3.
        Some (h3, res)))"
  from chain_Cons [OF "3.prems"(1)] obtain xe where l: "left = Some x" "h x = Some xe"
    and cx: "chain h (next_f xe) xs" by blast
  from chain_Cons [OF "3.prems"(2)] obtain ye where r: "right = Some y" "h y = Some ye"
    and cy: "chain h (next_f ye) ys" by blast
  from "3.prems"(3) obtain ce where ce: "h c = Some ce" by auto
  from "3.prems"(4) have cn: "c \<noteq> x" "c \<noteq> y" "c \<notin> set xs" "c \<notin> set ys" by auto
  from "3.prems"(5,6,7) have dj: "x \<notin> set xs" "y \<notin> set ys" "x \<noteq> y" "x \<notin> set ys"
    "y \<notin> set xs" "distinct xs" "distinct ys" "set xs \<inter> set ys = {}" by auto
  have kx: "value_f xe = k x" and ky: "value_f ye = k y"
    using "3.prems"(9) l(2) r(2) by (auto simp: payload_def)
  show ?case
  proof (cases "strcasecmp (k x) (k y) < 1")
    case True
    let ?h1 = "h(c \<mapsto> ce\<lparr>next_f := Some x\<rparr>)"
    have h1x: "?h1 x = Some xe" using cn l by simp
    have ln1: "load_next ?h1 (Some x) = Some (next_f xe)"
      using h1x by (rule load_next_Some)
    have ln2: "load_next ?h1 (Some c) = Some (Some x)"
      by (simp add: load_next_def)
    have lv: "load_value h (Some x) = Some (k x)" "load_value h (Some y) = Some (k y)"
      using l r kx ky by (simp_all add: load_value_def)
    have sn: "store_next h (Some c) (Some x) = Some ?h1"
      using ce by (simp add: store_next_def)
    have step: "merge_loop h (Some c) left right \<bind> ?fin =
        merge_loop ?h1 (Some x) (next_f xe) right \<bind> ?fin"
      unfolding l r
      by (subst merge_loop.simps) (simp add: lv True sn ln1 ln2 del: fun_upd_apply)
    have p1: "chain ?h1 (next_f xe) xs" using cx cn by (simp add: chain_upd)
    have p2: "chain ?h1 right (y # ys)" using "3.prems"(2) cn by (subst chain_upd) auto
    have p3: "?h1 x \<noteq> None" using h1x by simp
    have p4: "x \<notin> set xs \<union> set (y # ys)" using dj by simp
    have p7: "set xs \<inter> set (y # ys) = {}" using dj by simp
    have p8: "xs \<noteq> [] \<or> y # ys \<noteq> []" by simp
    have "\<forall>b. map_option value_f (?h1 b) = map_option value_f (h b)"
      using ce by simp
    then have "payload ?h1 = payload h" by (rule payload_eq)
    then have p9: "payload ?h1 = k" using "3.prems"(9) by simp
    from "3.IH"(1) [OF True p1 p2 p3 p4 dj(6) "3.prems"(6) p7 p8 p9] obtain h3 where
      r3: "merge_loop ?h1 (Some x) (next_f xe) right \<bind> ?fin = Some (h3, res)"
      and c3: "chain h3 (Some x) (x # merge_list k xs (y # ys))"
      and f3: "\<forall>b. b \<noteq> x \<and> b \<notin> set xs \<union> set (y # ys) \<longrightarrow> h3 b = ?h1 b"
      and v3: "\<forall>b. map_option value_f (h3 b) = map_option value_f (?h1 b)"
      by (elim exE conjE)
    have "h3 c = Some (ce\<lparr>next_f := Some x\<rparr>)" using f3 cn l by simp
    with c3 True have "chain h3 (Some c) (c # merge_list k (x # xs) (y # ys))" by simp
    moreover have "\<forall>b. b \<noteq> c \<and> b \<notin> set (x # xs) \<union> set (y # ys) \<longrightarrow> h3 b = h b"
      using f3 by simp
    moreover have "\<forall>b. map_option value_f (h3 b) = map_option value_f (h b)"
      using v3 ce by simp
    ultimately show ?thesis using r3 unfolding step by blast
  next
    case False
    let ?h1 = "h(c \<mapsto> ce\<lparr>next_f := Some y\<rparr>)"
    have h1y: "?h1 y = Some ye" using cn r by simp
    have ln1: "load_next ?h1 (Some y) = Some (next_f ye)"
      using h1y by (rule load_next_Some)
    have ln2: "load_next ?h1 (Some c) = Some (Some y)"
      by (simp add: load_next_def)
    have lv: "load_value h (Some x) = Some (k x)" "load_value h (Some y) = Some (k y)"
      using l r kx ky by (simp_all add: load_value_def)
    have sn: "store_next h (Some c) (Some y) = Some ?h1"
      using ce by (simp add: store_next_def)
    have step: "merge_loop h (Some c) left right \<bind> ?fin =
        merge_loop ?h1 (Some y) left (next_f ye) \<bind> ?fin"
      unfolding l r
      by (subst merge_loop.simps) (simp add: lv False sn ln1 ln2 del: fun_upd_apply)
    have p1: "chain ?h1 left (x # xs)" using "3.prems"(1) cn by (subst chain_upd) auto
    have p2: "chain ?h1 (next_f ye) ys" using cy cn by (simp add: chain_upd)
    have p3: "?h1 y \<noteq> None" using h1y by simp
    have p4: "y \<notin> set (x # xs) \<union> set ys" using dj by auto
    have p7: "set (x # xs) \<inter> set ys = {}" using dj by simp
    have p8: "x # xs \<noteq> [] \<or> ys \<noteq> []" by simp
    have "\<forall>b. map_option value_f (?h1 b) = map_option value_f (h b)"
      using ce by simp
    then have "payload ?h1 = payload h" by (rule payload_eq)
    then have p9: "payload ?h1 = k" using "3.prems"(9) by simp
    from "3.IH"(2) [OF False p1 p2 p3 p4 "3.prems"(5) dj(7) p7 p8 p9] obtain h3 where
      r3: "merge_loop ?h1 (Some y) left (next_f ye) \<bind> ?fin = Some (h3, res)"
      and c3: "chain h3 (Some y) (y # merge_list k (x # xs) ys)"
      and f3: "\<forall>b. b \<noteq> y \<and> b \<notin> set (x # xs) \<union> set ys \<longrightarrow> h3 b = ?h1 b"
      and v3: "\<forall>b. map_option value_f (h3 b) = map_option value_f (?h1 b)"
      by (elim exE conjE)
    have "h3 c = Some (ce\<lparr>next_f := Some y\<rparr>)" using f3 cn r by simp
    with c3 False have "chain h3 (Some c) (c # merge_list k (x # xs) (y # ys))" by simp
    moreover have "\<forall>b. b \<noteq> c \<and> b \<notin> set (x # xs) \<union> set (y # ys) \<longrightarrow> h3 b = h b"
      using f3 by simp
    moreover have "\<forall>b. map_option value_f (h3 b) = map_option value_f (h b)"
      using v3 ce by simp
    ultimately show ?thesis using r3 unfolding step by blast
  qed
qed

lemma merge_chain:
  assumes "chain h left ls" "chain h right rs" "distinct ls" "distinct rs"
    "set ls \<inter> set rs = {}"
  shows "\<exists>h' p'. merge h left right = Some (h', p') \<and>
    chain h' p' (merge_list (payload h) ls rs) \<and>
    (\<forall>b. b \<notin> set ls \<union> set rs \<longrightarrow> h' b = h b) \<and>
    (\<forall>b. map_option value_f (h' b) = map_option value_f (h b))"
proof (cases ls)
  case Nil
  with assms(1) have "left = None" by simp
  with Nil assms(2) show ?thesis by (simp add: merge_def)
next
  case ls: (Cons x xs)
  from chain_Cons [OF assms(1) [unfolded ls]] obtain xe where l: "left = Some x" "h x = Some xe"
    and cx: "chain h (next_f xe) xs" by blast
  show ?thesis
  proof (cases rs)
    case Nil
    with assms(2) have "right = None" by simp
    with Nil ls l assms(1) show ?thesis by (simp add: merge_def)
  next
    case rs: (Cons y ys)
    from chain_Cons [OF assms(2) [unfolded rs]] obtain ye where r: "right = Some y" "h y = Some ye"
      and cy: "chain h (next_f ye) ys" by blast
    from assms(3,4,5) ls rs have dj: "x \<notin> set xs" "y \<notin> set ys" "x \<noteq> y" "x \<notin> set ys"
      "y \<notin> set xs" "distinct xs" "distinct ys" "set xs \<inter> set ys = {}" by auto
    let ?k = "payload h"
    have lv: "load_value h (Some x) = Some (?k x)" "load_value h (Some y) = Some (?k y)"
      using l r by (simp_all add: load_value_def payload_def)
    have ln: "load_next h (Some x) = Some (next_f xe)" "load_next h (Some y) = Some (next_f ye)"
      using l r by (simp_all add: load_next_def)
    show ?thesis
    proof (cases "strcasecmp (?k x) (?k y) < 1")
      case True
      have "\<exists>h3. (merge_loop h (Some x) (next_f xe) right \<bind> (\<lambda>(h1, cur, left2, right2).
        (if left2 \<noteq> None then store_next h1 cur left2 else Some h1) \<bind> (\<lambda>h2.
        (if right2 \<noteq> None then store_next h2 cur right2 else Some h2) \<bind> (\<lambda>h3.
        Some (h3, Some x))))) = Some (h3, Some x) \<and>
        chain h3 (Some x) (x # merge_list ?k xs rs) \<and>
        (\<forall>b. b \<noteq> x \<and> b \<notin> set xs \<union> set rs \<longrightarrow> h3 b = h b) \<and>
        (\<forall>b. map_option value_f (h3 b) = map_option value_f (h b))"
        using cx assms(2) l(2) dj assms(4) rs
        by (intro merge_loop_chain) auto
      then obtain h3 where
        r3: "(merge_loop h (Some x) (next_f xe) right \<bind> (\<lambda>(h1, cur, left2, right2).
        (if left2 \<noteq> None then store_next h1 cur left2 else Some h1) \<bind> (\<lambda>h2.
        (if right2 \<noteq> None then store_next h2 cur right2 else Some h2) \<bind> (\<lambda>h3.
        Some (h3, Some x))))) = Some (h3, Some x)"
        and c3: "chain h3 (Some x) (x # merge_list ?k xs rs)"
        and f3: "\<forall>b. b \<noteq> x \<and> b \<notin> set xs \<union> set rs \<longrightarrow> h3 b = h b"
        and v3: "\<forall>b. map_option value_f (h3 b) = map_option value_f (h b)"
        by (elim exE conjE)
      have "merge h left right = Some (h3, Some x)"
        unfolding merge_def l r using r3 [unfolded r] by (simp add: lv ln True)
      moreover have "chain h3 (Some x) (merge_list ?k ls rs)"
        using c3 True unfolding ls rs by simp
      moreover have "\<forall>b. b \<notin> set ls \<union> set rs \<longrightarrow> h3 b = h b"
        using f3 ls by simp
      ultimately show ?thesis using v3 by blast
    next
      case False
      have "\<exists>h3. (merge_loop h (Some y) left (next_f ye) \<bind> (\<lambda>(h1, cur, left2, right2).
        (if left2 \<noteq> None then store_next h1 cur left2 else Some h1) \<bind> (\<lambda>h2.
        (if right2 \<noteq> None then store_next h2 cur right2 else Some h2) \<bind> (\<lambda>h3.
        Some (h3, Some y))))) = Some (h3, Some y) \<and>
        chain h3 (Some y) (y # merge_list ?k ls ys) \<and>
        (\<forall>b. b \<noteq> y \<and> b \<notin> set ls \<union> set ys \<longrightarrow> h3 b = h b) \<and>
        (\<forall>b. map_option value_f (h3 b) = map_option value_f (h b))"
        using assms(1) cy r(2) dj assms(3) ls
        by (intro merge_loop_chain) auto
      then obtain h3 where
        r3: "(merge_loop h (Some y) left (next_f ye) \<bind> (\<lambda>(h1, cur, left2, right2).
        (if left2 \<noteq> None then store_next h1 cur left2 else Some h1) \<bind> (\<lambda>h2.
        (if right2 \<noteq> None then store_next h2 cur right2 else Some h2) \<bind> (\<lambda>h3.
        Some (h3, Some y))))) = Some (h3, Some y)"
        and c3: "chain h3 (Some y) (y # merge_list ?k ls ys)"
        and f3: "\<forall>b. b \<noteq> y \<and> b \<notin> set ls \<union> set ys \<longrightarrow> h3 b = h b"
        and v3: "\<forall>b. map_option value_f (h3 b) = map_option value_f (h b)"
        by (elim exE conjE)
      have "merge h left right = Some (h3, Some y)"
        unfolding merge_def l r using r3 [unfolded l] by (simp add: lv ln False)
      moreover have "chain h3 (Some y) (merge_list ?k ls rs)"
        using c3 False unfolding ls rs by simp
      moreover have "\<forall>b. b \<notin> set ls \<union> set rs \<longrightarrow> h3 b = h b"
        using f3 rs by simp
      ultimately show ?thesis using v3 by blast
    qed
  qed
qed

lemma set_merge_sort_list: "set (merge_sort_list k as) = set as"
  using merge_sort_list_props [of k as] by (metis set_mset_mset)

lemma distinct_merge_sort_list: "distinct (merge_sort_list k as) = distinct as"
  using merge_sort_list_props [of k as] by (metis mset_eq_imp_distinct_iff)

lemma length_merge_sort_list: "length (merge_sort_list k as) = length as"
  using merge_sort_list_props [of k as] by (metis size_mset)

text \<open>Cutting a chain behind its node number \<open>i\<close> leaves two chains.\<close>

lemma chain_cut:
  assumes "chain h p as" "distinct as" "i < length as" "h (as ! i) = Some se"
  shows "chain (h(as ! i \<mapsto> se\<lparr>next_f := None\<rparr>)) p (take (Suc i) as)"
    and "chain (h(as ! i \<mapsto> se\<lparr>next_f := None\<rparr>)) (next_f se) (drop (Suc i) as)"
proof -
  let ?s = "as ! i"
  let ?h1 = "h(?s \<mapsto> se\<lparr>next_f := None\<rparr>)"
  have t: "take (Suc i) as = take i as @ [?s]"
    using assms(3) by (rule take_Suc_conv_app_nth)
  have as: "as = (take i as @ [?s]) @ drop (Suc i) as"
    using t by (metis append_take_drop_id)
  from assms(2) have "distinct ((take i as @ [?s]) @ drop (Suc i) as)"
    using as by simp
  then have n1: "?s \<notin> set (take i as)" and n2: "?s \<notin> set (drop (Suc i) as)"
    by auto
  from assms(1) have "path h p ((take i as @ [?s]) @ drop (Suc i) as) None"
    unfolding chain_path using as by simp
  then obtain m where m1: "path h p (take i as @ [?s]) m"
    and m2: "path h m (drop (Suc i) as) None"
    unfolding path_append [of h p "take i as @ [?s]"] by blast
  from m1 assms(4) have m: "m = next_f se"
    by (simp add: path_snoc load_next_def)
  have st: "store_next h (Some ?s) None = Some ?h1"
    using assms(4) by (simp add: store_next_def)
  from path_redirect [OF m1 n1 st] show "chain ?h1 p (take (Suc i) as)"
    by (simp add: chain_path t)
  from m2 n2 show "chain ?h1 (next_f se) (drop (Suc i) as)"
    unfolding chain_path m by (simp add: path_upd)
qed

lemma merge_sort_chain:
  "payload h = k \<Longrightarrow> chain h p as \<Longrightarrow> distinct as \<Longrightarrow>
   \<exists>h' p'. merge_sort h p = Some (h', p') \<and>
     chain h' p' (merge_sort_list k as) \<and>
     (\<forall>b. b \<notin> set as \<longrightarrow> h' b = h b) \<and>
     (\<forall>b. map_option value_f (h' b) = map_option value_f (h b))"
proof (induction k as arbitrary: h p rule: merge_sort_list.induct)
  case (1 k as)
  show ?case
  proof (cases "length as \<le> 1")
    case True
    then have m: "merge_sort_list k as = as" by (simp add: merge_sort_list.simps)
    have "merge_sort h p = Some (h, p)"
    proof (cases as)
      case Nil
      with "1.prems"(2) show ?thesis by (subst merge_sort.simps) simp
    next
      case (Cons a bs)
      with True have "bs = []" by simp
      with Cons "1.prems"(2) obtain e where "p = Some a" "h a = Some e" "next_f e = None"
        by (auto split: option.splits)
      then show ?thesis by (subst merge_sort.simps) (simp add: load_next_def)
    qed
    with m "1.prems"(2) show ?thesis by simp
  next
    case False
    let ?m = "(length as + 1) div 2"
    let ?i = "(length as - 1) div 2"
    let ?l = "take ?m as" and ?r = "drop ?m as"
    from False obtain a bs where as: "as = a # bs" and bs: "bs \<noteq> []"
      by (cases as) auto
    have mi: "?m = Suc ?i" using False by arith
    have il: "?i < length as" using False by arith
    from chain_Cons [OF "1.prems"(2) [unfolded as]] obtain e where p: "p = Some a" "h a = Some e"
      and cb: "chain h (next_f e) bs" by blast
    from cb bs obtain b where nb: "next_f e = Some b" by (cases bs) auto
    have ln: "load_next h p = Some (next_f e)" using p by (simp add: load_next_def)
    have "length bs < length as" using as by simp
    from split_loop_chain [OF cb "1.prems"(2) this]
    have sl0: "split_loop h (next_f e) p = Some (Some (as ! ?i))" using as by simp
    define s where "s = as ! ?i"
    note sl = sl0 [folded s_def]
    from chain_dom [OF "1.prems"(2), of s] il obtain se where se: "h s = Some se"
      by (auto simp: s_def)
    let ?h1 = "h(s \<mapsto> se\<lparr>next_f := None\<rparr>)"
    have lr: "load_next h (Some s) = Some (next_f se)" using se by (simp add: load_next_def)
    have st: "store_next h (Some s) None = Some ?h1" using se by (simp add: store_next_def)
    note cut = chain_cut [OF "1.prems"(2,3) il se [unfolded s_def], folded mi s_def]
    have v1: "\<forall>b. map_option value_f (?h1 b) = map_option value_f (h b)"
      using se by simp
    have d: "distinct ?l" "distinct ?r" "set ?l \<inter> set ?r = {}" "set ?l \<union> set ?r = set as"
      using "1.prems"(3) distinct_append [of ?l ?r] set_append [of ?l ?r] by simp_all
    have k1: "payload ?h1 = k" using payload_eq [OF v1] unfolding "1.prems"(1) .
    from "1.IH"(1) [OF False k1 cut(1) d(1)] obtain h2 l' where
      r2: "merge_sort ?h1 p = Some (h2, l')"
      and c2: "chain h2 l' (merge_sort_list k ?l)"
      and f2: "\<forall>b. b \<notin> set ?l \<longrightarrow> h2 b = ?h1 b"
      and v2: "\<forall>b. map_option value_f (h2 b) = map_option value_f (?h1 b)"
      by (elim exE conjE)
    have k2: "payload h2 = k" using payload_eq [OF v2] unfolding k1 .
    have cr2: "chain h2 (next_f se) ?r"
      using cut(2) f2 d(3) by (subst chain_frame [of ?r h2 ?h1]) auto
    from "1.IH"(2) [OF False k2 cr2 d(2)] obtain h3 r' where
      r3: "merge_sort h2 (next_f se) = Some (h3, r')"
      and c3: "chain h3 r' (merge_sort_list k ?r)"
      and f3: "\<forall>b. b \<notin> set ?r \<longrightarrow> h3 b = h2 b"
      and v3: "\<forall>b. map_option value_f (h3 b) = map_option value_f (h2 b)"
      by (elim exE conjE)
    have k3: "payload h3 = k" using payload_eq [OF v3] unfolding k2 .
    have cl3: "chain h3 l' (merge_sort_list k ?l)"
      using c2 f3 d(3) by (subst chain_frame [of _ h3 h2]) (auto simp: set_merge_sort_list)
    have dm: "distinct (merge_sort_list k ?l)" "distinct (merge_sort_list k ?r)"
      "set (merge_sort_list k ?l) \<inter> set (merge_sort_list k ?r) = {}"
      using d by (simp_all add: distinct_merge_sort_list set_merge_sort_list)
    from merge_chain [OF cl3 c3 dm] obtain h4 p' where
      r4: "merge h3 l' r' = Some (h4, p')"
      and c4: "chain h4 p' (merge_list k (merge_sort_list k ?l) (merge_sort_list k ?r))"
      and f4: "\<forall>b. b \<notin> set ?l \<union> set ?r \<longrightarrow> h4 b = h3 b"
      and v4: "\<forall>b. map_option value_f (h4 b) = map_option value_f (h3 b)"
      unfolding k3 set_merge_sort_list by (elim exE conjE)
    have pn: "p \<noteq> None" using p by simp
    have "merge_sort h p = Some (h4, p')"
      by (subst merge_sort.simps)
        (simp add: pn ln [unfolded nb] sl [unfolded nb] lr st r2 r3 r4 del: fun_upd_apply)
    moreover have "chain h4 p' (merge_sort_list k as)"
      using c4 False by (subst merge_sort_list.simps) simp
    moreover have "\<forall>b. b \<notin> set as \<longrightarrow> h4 b = h b"
    proof (intro allI impI)
      fix b assume b: "b \<notin> set as"
      with d(4) have "b \<notin> set ?l" "b \<notin> set ?r" by auto
      moreover from b il have "b \<noteq> s" by (auto simp: s_def)
      ultimately show "h4 b = h b" using f4 f3 f2 by simp
    qed
    moreover have "\<forall>b. map_option value_f (h4 b) = map_option value_f (h b)"
      using v4 v3 v2 v1 by simp
    ultimately show ?thesis by blast
  qed
qed

lemma distinct_hd_last: "distinct as \<Longrightarrow> as \<noteq> [] \<Longrightarrow> hd as = last as \<Longrightarrow> length as = 1"
  by (cases as) (auto split: if_splits)

lemma q_sort_ok:
  assumes inv: "queue_inv h q"
  defines "as' \<equiv> merge_sort_list (payload h) (q_nodes h q)"
  defines "q' \<equiv> q\<lparr>head_f := (case as' of [] \<Rightarrow> None | a # _ \<Rightarrow> Some a), tail_f := last_opt as'\<rparr>"
  shows "\<exists>h'. q_sort h (Some q) = Some (h', Some q') \<and>
    queue_inv h' q' \<and> q_nodes h' q' = as' \<and>
    (\<forall>b. b \<notin> set (q_nodes h q) \<longrightarrow> h' b = h b) \<and>
    (\<forall>b. map_option value_f (h' b) = map_option value_f (h b))"
proof -
  let ?as = "q_nodes h q"
  note d = queue_invD [OF inv]
  have hd: "head_f q = (case ?as of [] \<Rightarrow> None | a # _ \<Rightarrow> Some a)"
    using d(1) by (rule chain_hd)
  have "\<exists>h'. q_sort h (Some q) = Some (h', Some q') \<and> chain h' (head_f q') as' \<and>
    (\<forall>b. b \<notin> set ?as \<longrightarrow> h' b = h b) \<and>
    (\<forall>b. map_option value_f (h' b) = map_option value_f (h b))"
  proof (cases "head_f q = None \<or> head_f q = tail_f q")
    case True
    have l: "length ?as \<le> 1"
    proof (cases ?as)
      case Nil
      then show ?thesis by simp
    next
      case (Cons a bs)
      with True hd d(4) have "hd ?as = last ?as" by (simp add: last_opt_def)
      with d(2) Cons have "length ?as = 1" by (intro distinct_hd_last) simp_all
      then show ?thesis by simp
    qed
    then have m: "as' = ?as" by (simp add: as'_def merge_sort_list.simps)
    have "q' = q" using hd d(4) by (simp add: q'_def m)
    moreover have "q_sort h (Some q) = Some (h, Some q)"
      using True by (auto simp: q_sort_def)
    ultimately show ?thesis using d(1) m by simp
  next
    case False
    from merge_sort_chain [OF refl d(1) d(2)] obtain h' p' where
      r: "merge_sort h (head_f q) = Some (h', p')"
      and c: "chain h' p' as'"
      and f: "\<forall>b. b \<notin> set ?as \<longrightarrow> h' b = h b"
      and v: "\<forall>b. map_option value_f (h' b) = map_option value_f (h b)"
      unfolding as'_def by (elim exE conjE)
    from chain_hd [OF c] have p': "p' = (case as' of [] \<Rightarrow> None | a # _ \<Rightarrow> Some a)" .
    from tail_loop_chain [OF c] have t: "tail_loop h' p' = Some (last_opt as')" .
    from False obtain x where x: "head_f q = Some x" "Some x \<noteq> tail_f q" by auto
    have "q_sort h (Some q) = Some (h', Some q')"
      using r t unfolding x(1) by (simp add: q_sort_def q'_def p' x)
    moreover have "chain h' (head_f q') as'" using c by (simp add: q'_def p')
    ultimately show ?thesis using f v by blast
  qed
  then obtain h' where r: "q_sort h (Some q) = Some (h', Some q')"
    and c: "chain h' (head_f q') as'"
    and f: "\<forall>b. b \<notin> set ?as \<longrightarrow> h' b = h b"
    and v: "\<forall>b. map_option value_f (h' b) = map_option value_f (h b)"
    by (elim exE conjE)
  have "distinct as'" using d(2) by (simp add: as'_def distinct_merge_sort_list)
  moreover have "size_f q' = int (length as')"
    using d(3) by (simp add: q'_def as'_def length_merge_sort_list)
  moreover have "tail_f q' = last_opt as'" by (simp add: q'_def)
  ultimately have "queue_inv h' q'" "q_nodes h' q' = as'"
    using queue_invI [OF c] by blast+
  with r f v show ?thesis by blast
qed

lemma q_sort_None: "q_sort h None = Some (h, None)"
  by (simp add: q_sort_def)

text \<open>
  C1. \<^verbatim>\<open>q_sort\<close> returns on every well-formed queue (and leaves an absent one alone).
  Afterwards the payloads, read from the head, are in non-decreasing order of
  \<^verbatim>\<open>strcasecmp\<close>: each is at most every later one; they are the payloads of before, with
  their multiplicities; the nodes are those of before and each holds the payload it
  had.
\<close>

theorem sort_sorts:
  assumes "queue_inv h q"
  shows "q_sort h None = Some (h, None) \<and>
    (\<exists>h' q'. q_sort h (Some q) = Some (h', Some q') \<and>
       sorted_wrt case_le (q_values h' q') \<and>
       mset (q_values h' q') = mset (q_values h q) \<and>
       mset (q_nodes h' q') = mset (q_nodes h q) \<and>
       (\<forall>b. map_option value_f (h' b) = map_option value_f (h b)))"
proof -
  let ?as' = "merge_sort_list (payload h) (q_nodes h q)"
  from q_sort_ok [OF assms] obtain h' q' where
    r: "q_sort h (Some q) = Some (h', Some q')"
    and n: "q_nodes h' q' = ?as'"
    and v: "\<forall>b. map_option value_f (h' b) = map_option value_f (h b)"
    by blast
  note p = merge_sort_list_props [of "payload h" "q_nodes h q"]
  have qv: "q_values h' q' = map (payload h) ?as'"
    unfolding q_values_def n payload_eq [OF v] ..
  have "sorted_wrt case_le (q_values h' q')"
    unfolding qv sorted_wrt_map using p by simp
  moreover have "mset (map (payload h) ?as') = mset (map (payload h) (q_nodes h q))"
    using p by simp
  then have "mset (q_values h' q') = mset (q_values h q)"
    unfolding qv by (simp only: q_values_def)
  moreover have "mset (q_nodes h' q') = mset (q_nodes h q)"
    unfolding n using p by simp
  ultimately show ?thesis using r v q_sort_None by blast
qed

theorem sort_sorts_witness:
  "queue_inv h_ex q_ex \<and>
   (\<exists>h' q'. q_sort h_ex (Some q_ex) = Some (h', Some q') \<and>
      sorted_wrt case_le (q_values h' q') \<and>
      mset (q_values h' q') = mset [''banana'', ''Apple'', ''cherry''])"
  using sort_sorts [OF queue_inv_ex] queue_inv_ex by (auto simp: q_values_ex)

text \<open>
  C3. \<^verbatim>\<open>q_sort\<close> is stable. For every string \<open>v\<close>, the nodes whose payload ties with \<open>v\<close>
  (\<^verbatim>\<open>strcasecmp\<close> gives 0) are met, after the sort, in the order in which they were met
  before; so are their payloads, which may differ in case.
\<close>

theorem sort_stable:
  assumes "queue_inv h q"
  shows "\<exists>h' q'. q_sort h (Some q) = Some (h', Some q') \<and>
    (\<forall>v. filter (\<lambda>a. case_eq (payload h a) v) (q_nodes h' q') =
          filter (\<lambda>a. case_eq (payload h a) v) (q_nodes h q)) \<and>
    (\<forall>v. filter (\<lambda>s. case_eq s v) (q_values h' q') =
          filter (\<lambda>s. case_eq s v) (q_values h q))"
proof -
  let ?as' = "merge_sort_list (payload h) (q_nodes h q)"
  from q_sort_ok [OF assms] obtain h' q' where
    r: "q_sort h (Some q) = Some (h', Some q')"
    and n: "q_nodes h' q' = ?as'"
    and v: "\<forall>b. map_option value_f (h' b) = map_option value_f (h b)"
    by blast
  note p = merge_sort_list_props [of "payload h" "q_nodes h q"]
  have qv: "q_values h' q' = map (payload h) ?as'"
    unfolding q_values_def n payload_eq [OF v] ..
  have s1: "\<forall>v. filter (\<lambda>a. case_eq (payload h a) v) (q_nodes h' q') =
          filter (\<lambda>a. case_eq (payload h a) v) (q_nodes h q)"
    unfolding n using p by simp
  have "filter (\<lambda>s. case_eq s v) (map (payload h) ?as') =
          filter (\<lambda>s. case_eq s v) (map (payload h) (q_nodes h q))" for v
    unfolding filter_map comp_def using p by simp
  then have "filter (\<lambda>s. case_eq s v) (q_values h' q') =
          filter (\<lambda>s. case_eq s v) (q_values h q)" for v
    unfolding qv by (simp only: q_values_def)
  with r s1 show ?thesis by blast
qed

theorem sort_stable_witness:
  "queue_inv h_ties q_ties \<and>
   (\<exists>h' q'. q_sort h_ties (Some q_ties) = Some (h', Some q') \<and>
      filter (\<lambda>a. case_eq (payload h_ties a) ''a'') (q_nodes h' q') = [2, 4] \<and>
      filter (\<lambda>a. case_eq (payload h_ties a) ''b'') (q_nodes h' q') = [1, 3])"
proof -
  from sort_stable [OF queue_inv_ties] obtain h' q' where
    r: "q_sort h_ties (Some q_ties) = Some (h', Some q')"
    and f: "\<forall>v. filter (\<lambda>a. case_eq (payload h_ties a) v) (q_nodes h' q') =
          filter (\<lambda>a. case_eq (payload h_ties a) v) (q_nodes h_ties q_ties)"
    by blast
  have "filter (\<lambda>a. case_eq (payload h_ties a) ''a'') [1, 2, 3, 4] = [2, 4]"
    "filter (\<lambda>a. case_eq (payload h_ties a) ''b'') [1, 2, 3, 4] = [1, 3]"
    by code_simp+
  with r f queue_inv_ties show ?thesis
    unfolding q_nodes_ties by metis
qed

text \<open>
  C8. \<^verbatim>\<open>q_sort\<close> on a well-formed queue whose payloads are in order changes neither the
  heap nor the queue; so a second \<^verbatim>\<open>q_sort\<close> returns the state the first one left.
\<close>

theorem sort_idempotent:
  assumes "queue_inv h q"
  shows "(sorted_wrt case_le (q_values h q) \<longrightarrow> q_sort h (Some q) = Some (h, Some q)) \<and>
    (\<exists>h1 q1. q_sort h (Some q) = Some (h1, Some q1) \<and>
       q_sort h1 (Some q1) = Some (h1, Some q1))"
proof -
  have sorted_fix: "q_sort h (Some q) = Some (h, Some q)"
    if inv: "queue_inv h q" and s: "sorted_wrt case_le (q_values h q)" for h q
  proof -
    let ?as = "q_nodes h q"
    note d = queue_invD [OF inv]
    from s have "sorted_wrt (\<lambda>a b. case_le (payload h a) (payload h b)) ?as"
      by (simp add: q_values_def sorted_wrt_map)
    then have m: "merge_sort_list (payload h) ?as = ?as" by (rule merge_sort_list_sorted)
    let ?q' = "q\<lparr>head_f := (case ?as of [] \<Rightarrow> None | a # _ \<Rightarrow> Some a), tail_f := last_opt ?as\<rparr>"
    from q_sort_ok [OF inv, unfolded m] obtain h' where
      r: "q_sort h (Some q) = Some (h', Some ?q')"
      and i: "queue_inv h' ?q'" and n: "q_nodes h' ?q' = ?as"
      and f: "\<forall>b. b \<notin> set ?as \<longrightarrow> h' b = h b"
      and v: "\<forall>b. map_option value_f (h' b) = map_option value_f (h b)"
      by (elim exE conjE)
    have q': "?q' = q" using chain_hd [OF d(1)] d(4) by simp
    have c: "chain h' (head_f q) ?as"
      using queue_invD(1) [OF i, unfolded n] unfolding q' .
    have "h' = h"
      using c d(1)
    proof (rule heap_eqI)
      fix b
      show "map_option value_f (h' b) = map_option value_f (h b)" using v by simp
      show "b \<notin> set ?as \<Longrightarrow> h' b = h b" using f by simp
    qed
    with r q' show ?thesis by simp
  qed
  let ?as' = "merge_sort_list (payload h) (q_nodes h q)"
  from q_sort_ok [OF assms] obtain h1 q1 where
    r: "q_sort h (Some q) = Some (h1, Some q1)"
    and i: "queue_inv h1 q1"
    and n: "q_nodes h1 q1 = ?as'"
    and v: "\<forall>b. map_option value_f (h1 b) = map_option value_f (h b)"
    by blast
  have "sorted_wrt case_le (map (payload h) ?as')"
    unfolding sorted_wrt_map
    using merge_sort_list_props [of "payload h" "q_nodes h q"] by simp
  then have "sorted_wrt case_le (q_values h1 q1)"
    by (simp only: q_values_def n payload_eq [OF v])
  from sorted_fix [OF i this] r sorted_fix [OF assms] show ?thesis by blast
qed

theorem sort_idempotent_witness:
  "queue_inv h_ex q_ex \<and>
   (\<exists>h1 q1. q_sort h_ex (Some q_ex) = Some (h1, Some q1) \<and>
      q_sort h1 (Some q1) = Some (h1, Some q1))"
  using sort_idempotent [OF queue_inv_ex] queue_inv_ex by blast

section \<open>The invariants under every operation\<close>

text \<open>
  C2. Each of \<^verbatim>\<open>q_insert_head\<close>, \<^verbatim>\<open>q_insert_tail\<close>, \<^verbatim>\<open>q_remove_head\<close>, \<^verbatim>\<open>q_reverse\<close> and
  \<^verbatim>\<open>q_sort\<close>, called on a well-formed queue (with a \<^verbatim>\<open>malloc\<close> that returns unallocated
  addresses, and a buffer that is absent or has its \<open>bufsize \<ge> 1\<close> bytes), returns and
  leaves a well-formed queue, whether it succeeds or fails: \<open>size\<close> is 0 iff \<open>head\<close> is
  none iff \<open>tail\<close> is none, \<open>size\<close> nodes are met from \<open>head\<close>, the last of them is \<open>tail\<close>, its
  \<^verbatim>\<open>next\<close> is none, and no node is met twice.
\<close>

theorem operations_preserve_invariants:
  assumes "queue_inv h q" and "fresh h node_malloc" and "buffer_ok sp bufsize"
  shows
   "(\<exists>h' q' r. q_insert_head h (Some q) s node_malloc value_malloc = Some (h', Some q', r) \<and>
       queue_inv h' q') \<and>
    (\<exists>h' q' r. q_insert_tail h (Some q) s node_malloc value_malloc = Some (h', Some q', r) \<and>
       queue_inv h' q') \<and>
    (\<exists>h' q' sp' r. q_remove_head h (Some q) sp bufsize = Some (h', Some q', sp', r) \<and>
       queue_inv h' q') \<and>
    (\<exists>h' q'. q_reverse h (Some q) = Some (h', Some q') \<and> queue_inv h' q') \<and>
    (\<exists>h' q'. q_sort h (Some q) = Some (h', Some q') \<and> queue_inv h' q')"
proof (intro conjI)
  let ?fail = "s = None \<or> (\<exists>str. s = Some str \<and> strlen str = 0) \<or>
    node_malloc = None \<or> \<not> value_malloc"
  have ok: "\<exists>str a. s = Some str \<and> strlen str \<noteq> 0 \<and> node_malloc = Some a \<and> value_malloc \<and>
    h a = None" if "\<not> ?fail"
    using that assms(2) by (auto simp: fresh_def)
  show "\<exists>h' q' r. q_insert_head h (Some q) s node_malloc value_malloc = Some (h', Some q', r) \<and>
       queue_inv h' q'"
  proof (cases ?fail)
    case True
    have "q_insert_head h (Some q) s node_malloc value_malloc = Some (h, Some q, False)"
      using assms(2) True by (intro q_insert_fail) simp_all
    with assms(1) show ?thesis by blast
  next
    case False
    from ok [OF False] obtain str a where s: "s = Some str" "strlen str \<noteq> 0"
      "node_malloc = Some a" "value_malloc" "h a = None" by blast
    from q_insert_head_ok(1,2) [OF assms(1) s(5) s(2)] show ?thesis
      unfolding s(1) s(3) using s(4) by auto
  qed
  show "\<exists>h' q' r. q_insert_tail h (Some q) s node_malloc value_malloc = Some (h', Some q', r) \<and>
       queue_inv h' q'"
  proof (cases ?fail)
    case True
    have "q_insert_tail h (Some q) s node_malloc value_malloc = Some (h, Some q, False)"
      using assms(2) True by (intro q_insert_fail) simp_all
    with assms(1) show ?thesis by blast
  next
    case False
    from ok [OF False] obtain str a where s: "s = Some str" "strlen str \<noteq> 0"
      "node_malloc = Some a" "value_malloc" "h a = None" by blast
    from q_insert_tail_ok [OF assms(1) s(5) s(2)] show ?thesis
      unfolding s(1) s(3) using s(4) by auto
  qed
  show "\<exists>h' q' sp' r. q_remove_head h (Some q) sp bufsize = Some (h', Some q', sp', r) \<and>
       queue_inv h' q'"
  proof (cases "head_f q")
    case None
    then have "q_remove_head h (Some q) sp bufsize = Some (h, Some q, sp, False)"
      by (simp add: q_remove_head_def)
    with assms(1) show ?thesis by blast
  next
    case (Some a)
    from q_remove_head_ok [OF assms(1) Some assms(3)] show ?thesis by blast
  qed
  show "\<exists>h' q'. q_reverse h (Some q) = Some (h', Some q') \<and> queue_inv h' q'"
  proof (cases "head_f q = None")
    case True
    then have "q_reverse h (Some q) = Some (h, Some q)" by (simp add: q_reverse_def)
    with assms(1) show ?thesis by blast
  next
    case False
    from q_reverse_ok [OF assms(1) False] show ?thesis by blast
  qed
  show "\<exists>h' q'. q_sort h (Some q) = Some (h', Some q') \<and> queue_inv h' q'"
    using q_sort_ok [OF assms(1)] by blast
qed

theorem operations_preserve_invariants_witness:
  "queue_inv h_ex q_ex \<and> fresh h_ex (Some 7) \<and> buffer_ok (Some ''xxxxxxxxxx'') 4 \<and>
   (\<exists>h' q' r. q_insert_head h_ex (Some q_ex) (Some ''kiwi'') (Some 7) True = Some (h', Some q', r) \<and>
      queue_inv h' q') \<and>
   (\<exists>h' q' r. q_insert_tail h_ex (Some q_ex) (Some ''kiwi'') (Some 7) True = Some (h', Some q', r) \<and>
      queue_inv h' q') \<and>
   (\<exists>h' q' sp' r. q_remove_head h_ex (Some q_ex) (Some ''xxxxxxxxxx'') 4 =
      Some (h', Some q', sp', r) \<and> queue_inv h' q') \<and>
   (\<exists>h' q'. q_reverse h_ex (Some q_ex) = Some (h', Some q') \<and> queue_inv h' q') \<and>
   (\<exists>h' q'. q_sort h_ex (Some q_ex) = Some (h', Some q') \<and> queue_inv h' q')"
proof -
  have f: "fresh h_ex (Some 7)" by (simp add: fresh_def h_ex_simps)
  from operations_preserve_invariants [OF queue_inv_ex f buffer_ok_ex, of "Some ''kiwi''" True]
  show ?thesis using queue_inv_ex f buffer_ok_ex by simp
qed

end
